theory Spec2Isabelle
  imports Main "HOL-Library.Sublist"
begin

section \<open>JavaScript strings\<close>

text \<open>
  Strings are HOL strings: a character is a code unit below 256, the Latin-1 range of the
  code units of a JavaScript string. In that range \<open>toLowerCase\<close> maps \<open>A\<close> to \<open>Z\<close>
  and the capital letters from U+00C0 to U+00DE, the multiplication sign U+00D7 apart,
  to the letter 32 places on, and nothing else; the word characters of \<open>\w\<close> are the
  ASCII letters, the digits and the underscore; the line terminators that \<open>.\<close> excludes
  are the line feed and the carriage return; the white space that \<open>trim\<close> removes is
  the tab, the four characters from the line feed to the carriage return, the space and
  the no-break space U+00A0.
\<close>

definition toLowerChar :: "char \<Rightarrow> char" where
  "toLowerChar c =
     (let n = (of_char c :: nat)
      in if (65 \<le> n \<and> n \<le> 90) \<or> (192 \<le> n \<and> n \<le> 222 \<and> n \<noteq> 215)
         then char_of (n + 32) else c)"

definition toLowerCase :: "string \<Rightarrow> string" where
  "toLowerCase s = map toLowerChar s"

fun str_includes :: "string \<Rightarrow> string \<Rightarrow> bool" where
  "str_includes [] k = (k = [])"
| "str_includes (x # xs) k = (prefix k (x # xs) \<or> str_includes xs k)"

section \<open>The regular expressions of the source\<close>

text \<open>
  Every regular expression the resolution pipeline tests has the shape
  \<open>/\b(a1|a2|...)\b/i\<close>, each alternative a sequence of literal characters, \<open>.\<close>
  and \<open>.?\<close>. \<open>RegExp.prototype.test\<close> backtracks over the start position, the
  alternatives and the optional atoms, so it answers whether some choice matches.
\<close>

datatype atom = Lit char | AnyChar | OptAnyChar

type_synonym alternative = "atom list"

definition lits :: "string \<Rightarrow> alternative" where
  "lits s = map Lit s"

definition isLineTerminator :: "char \<Rightarrow> bool" where
  "isLineTerminator c = (c = CHR 0x0A \<or> c = CHR 0x0D)"

definition isWordChar :: "char \<Rightarrow> bool" where
  "isWordChar c =
     (let n = (of_char c :: nat)
      in (48 \<le> n \<and> n \<le> 57) \<or> (65 \<le> n \<and> n \<le> 90) \<or> n = 95 \<or> (97 \<le> n \<and> n \<le> 122))"

text \<open>
  Under the flag \<open>i\<close> two code units below 256 match when their lower-case forms are
  equal; a literal of the patterns is an ASCII character, which only its own two cases
  match.
\<close>

definition ci_eq :: "char \<Rightarrow> char \<Rightarrow> bool" where
  "ci_eq x c = (toLowerChar x = toLowerChar c)"

text \<open>
  \<open>match_atoms as p s\<close> lists every way the atoms can consume a prefix of \<open>s\<close>: the
  character consumed last (\<open>p\<close> when nothing was consumed) and the rest of the input.
\<close>

fun match_atoms :: "alternative \<Rightarrow> char option \<Rightarrow> string \<Rightarrow> (char option \<times> string) list" where
  "match_atoms [] p s = [(p, s)]"
| "match_atoms (Lit c # as) p s =
     (case s of [] \<Rightarrow> []
      | x # xs \<Rightarrow> if ci_eq x c then match_atoms as (Some x) xs else [])"
| "match_atoms (AnyChar # as) p s =
     (case s of [] \<Rightarrow> []
      | x # xs \<Rightarrow> if isLineTerminator x then [] else match_atoms as (Some x) xs)"
| "match_atoms (OptAnyChar # as) p s =
     (case s of [] \<Rightarrow> []
      | x # xs \<Rightarrow> if isLineTerminator x then [] else match_atoms as (Some x) xs)
     @ match_atoms as p s"

definition next_char :: "string \<Rightarrow> char option" where
  "next_char s = (case s of [] \<Rightarrow> None | x # _ \<Rightarrow> Some x)"

definition is_word :: "char option \<Rightarrow> bool" where
  "is_word p = (case p of None \<Rightarrow> False | Some c \<Rightarrow> isWordChar c)"

definition word_boundary :: "char option \<Rightarrow> string \<Rightarrow> bool" where
  "word_boundary p s = (is_word p \<noteq> is_word (next_char s))"

definition match_here :: "alternative list \<Rightarrow> char option \<Rightarrow> string \<Rightarrow> bool" where
  "match_here alts p s =
     (word_boundary p s \<and>
      list_ex (\<lambda>alt. list_ex (\<lambda>(p', r). word_boundary p' r) (match_atoms alt p s)) alts)"

fun search_from :: "alternative list \<Rightarrow> char option \<Rightarrow> string \<Rightarrow> bool" where
  "search_from alts p [] = match_here alts p []"
| "search_from alts p (x # xs) = (match_here alts p (x # xs) \<or> search_from alts (Some x) xs)"

definition regex_test :: "alternative list \<Rightarrow> string \<Rightarrow> bool" where
  "regex_test alts s = search_from alts None s"

text \<open>
  The same matching, read declaratively: \<open>atoms_match as m\<close> says that the atoms match
  exactly the string \<open>m\<close>.
\<close>

fun atoms_match :: "alternative \<Rightarrow> string \<Rightarrow> bool" where
  "atoms_match [] m = (m = [])"
| "atoms_match (Lit c # as) m =
     (case m of [] \<Rightarrow> False | x # xs \<Rightarrow> ci_eq x c \<and> atoms_match as xs)"
| "atoms_match (AnyChar # as) m =
     (case m of [] \<Rightarrow> False | x # xs \<Rightarrow> \<not> isLineTerminator x \<and> atoms_match as xs)"
| "atoms_match (OptAnyChar # as) m =
     ((case m of [] \<Rightarrow> False | x # xs \<Rightarrow> \<not> isLineTerminator x \<and> atoms_match as xs)
      \<or> atoms_match as m)"

definition last_or :: "char option \<Rightarrow> string \<Rightarrow> char option" where
  "last_or p m = (if m = [] then p else Some (last m))"

section \<open>Formulation classifier\<close>

datatype formulation = IR | ER

text \<open>
  \<open>isExplicitlyER\<close> of the generator service:
  \<open>/\b(extended.?release|extended.?release|er|xl|xr|sustained.?release|sr|la|long.?acting)\b/i\<close>.
\<close>

definition erKeywords :: "alternative list" where
  "erKeywords =
     [lits ''extended'' @ [OptAnyChar] @ lits ''release'',
      lits ''extended'' @ [OptAnyChar] @ lits ''release'',
      lits ''er'', lits ''xl'', lits ''xr'',
      lits ''sustained'' @ [OptAnyChar] @ lits ''release'',
      lits ''sr'', lits ''la'',
      lits ''long'' @ [OptAnyChar] @ lits ''acting'']"

definition isExplicitlyER :: "string \<Rightarrow> bool" where
  "isExplicitlyER context = regex_test erKeywords context"

text \<open>
  The specification's reading of the classifier: the context contains one of ten keywords
  as a whole word, case-insensitively. A whole-word occurrence is an occurrence with no
  word character directly before or after it.
\<close>

definition whole_word_occurrence :: "(string \<Rightarrow> bool) \<Rightarrow> string \<Rightarrow> bool" where
  "whole_word_occurrence P s =
     (\<exists>pre m post. s = pre @ m @ post \<and> P m \<and>
        (pre = [] \<or> \<not> isWordChar (last pre)) \<and> (post = [] \<or> \<not> isWordChar (hd post)))"

definition contains_word :: "string \<Rightarrow> string \<Rightarrow> bool" where
  "contains_word kw s = whole_word_occurrence (\<lambda>m. toLowerCase m = toLowerCase kw) s"

definition er_keywords_spec :: "string list" where
  "er_keywords_spec =
     [''extended release'', ''extended-release'', ''er'', ''xr'', ''xl'', ''la'',
      ''sustained release'', ''sustained-release'', ''sr'', ''long-acting'']"

definition contains_er_keyword :: "string \<Rightarrow> bool" where
  "contains_er_keyword s = list_ex (\<lambda>kw. contains_word kw s) er_keywords_spec"

text \<open>
  What the pattern of \<open>isExplicitlyER\<close> accepts as a cue: one of the five abbreviations,
  or the two words of a long form with at most one character between them, any character
  but a line terminator.
\<close>

definition joined :: "string \<Rightarrow> string \<Rightarrow> string \<Rightarrow> bool" where
  "joined a b m =
     (\<exists>x sep y. m = x @ sep @ y \<and> toLowerCase x = a \<and> toLowerCase y = b \<and>
        length sep \<le> 1 \<and> (\<forall>c \<in> set sep. \<not> isLineTerminator c))"

definition er_cue :: "string \<Rightarrow> bool" where
  "er_cue m =
     (toLowerCase m \<in> {''er'', ''xl'', ''xr'', ''sr'', ''la''} \<or>
      joined ''extended'' ''release'' m \<or> joined ''sustained'' ''release'' m \<or>
      joined ''long'' ''acting'' m)"

section \<open>Splitting, trimming and sets of strings\<close>

definition isWhiteSpace :: "char \<Rightarrow> bool" where
  "isWhiteSpace c = (let n = (of_char c :: nat) in (9 \<le> n \<and> n \<le> 13) \<or> n = 32 \<or> n = 160)"

definition str_trim :: "string \<Rightarrow> string" where
  "str_trim s = rev (dropWhile isWhiteSpace (rev (dropWhile isWhiteSpace s)))"

text \<open>
  \<open>s.split(sep)\<close> for a separator that is not empty: the pieces between the occurrences
  of the separator, found from the left.
\<close>

fun split_from :: "string \<Rightarrow> string \<Rightarrow> string \<Rightarrow> string list" where
  "split_from sep cur [] = [cur]"
| "split_from sep cur (x # xs) =
     (if sep \<noteq> [] \<and> prefix sep (x # xs)
      then cur # split_from sep [] (drop (length sep) (x # xs))
      else split_from sep (cur @ [x]) xs)"

definition str_split :: "string \<Rightarrow> string \<Rightarrow> string list" where
  "str_split s sep = (if sep = [] then map (\<lambda>c. [c]) s else split_from sep [] s)"

text \<open>
  \<open>[...new Set(xs)]\<close>: a \<open>Set\<close> keeps its elements in insertion order and ignores an
  element it already holds.
\<close>

definition set_add :: "'a list \<Rightarrow> 'a \<Rightarrow> 'a list" where
  "set_add seen x = (if x \<in> set seen then seen else seen @ [x])"

definition new_Set :: "'a list \<Rightarrow> 'a list" where
  "new_Set xs = foldl set_add [] xs"

section \<open>Combination-name expander\<close>

definition slash_forms :: "string \<Rightarrow> string \<Rightarrow> string list" where
  "slash_forms p0 p1 =
     [p0 @ ''/'' @ p1, p1 @ ''/'' @ p0, p0 @ '' '' @ p1, p1 @ '' '' @ p0,
      p0 @ ''-'' @ p1, p1 @ ''-'' @ p0, p0, p1]"

definition and_forms :: "string \<Rightarrow> string \<Rightarrow> string list" where
  "and_forms p0 p1 =
     [p0 @ ''/'' @ p1, p1 @ ''/'' @ p0, p0 @ '' '' @ p1, p1 @ '' '' @ p0, p0, p1]"

text \<open>What each of the two blocks pushes after the original name.\<close>

definition slash_permutations :: "string \<Rightarrow> string list" where
  "slash_permutations drugName =
     (if str_includes drugName ''/''
      then (case map str_trim (str_split drugName ''/'') of
              [p0, p1] \<Rightarrow> slash_forms p0 p1
            | _ \<Rightarrow> [])
      else [])"

definition and_permutations :: "string \<Rightarrow> string list" where
  "and_permutations drugName =
     (if str_includes drugName '' and '' \<or> str_includes drugName '' & ''
      then (let separator = (if str_includes drugName '' and '' then '' and '' else '' & '')
            in case map str_trim (str_split drugName separator) of
                 [p0, p1] \<Rightarrow> and_forms p0 p1
               | _ \<Rightarrow> [])
      else [])"

definition generateCombinationPermutations :: "string \<Rightarrow> string list" where
  "generateCombinationPermutations drugName =
     new_Set ([drugName] @ slash_permutations drugName @ and_permutations drugName)"

section \<open>Search-term generator\<close>

text \<open>
  A medication mention, with the types its TypeScript declaration gives it. The dosage is
  read by the dosage-availability check only.
\<close>

record medication =
  name :: string
  dosage :: string
  formulation :: formulation
  deliveryMethod :: "string option"
  fullContext :: string

definition delivery_of :: "medication \<Rightarrow> string" where
  "delivery_of medication =
     (case deliveryMethod medication of None \<Rightarrow> [] | Some d \<Rightarrow> toLowerCase d)"

text \<open>The terms pushed for one name permutation, in the order of the loop body.\<close>

definition terms_for :: "medication \<Rightarrow> string \<Rightarrow> string \<Rightarrow> string list" where
  "terms_for medication delivery drugName =
     (if delivery \<noteq> []
      then (if formulation medication = ER
            then [drugName @ '' '' @ delivery @ '' extended release'',
                  drugName @ '' '' @ delivery @ '' er'',
                  drugName @ '' '' @ delivery @ '' xl'',
                  drugName @ '' '' @ delivery @ '' xr'']
            else [drugName @ '' '' @ delivery @ '' immediate release'',
                  drugName @ '' '' @ delivery @ '' ir''])
           @ [drugName @ '' '' @ delivery]
           @ (if delivery = ''inhaler''
              then [drugName @ '' inhalation'', drugName @ '' metered dose inhaler'',
                    drugName @ '' MDI'']
              else [])
           @ (if delivery = ''handihaler''
              then [drugName @ '' dry powder inhaler'', drugName @ '' DPI'']
              else [])
      else [])
     @ (if formulation medication = ER
        then [drugName @ '' extended release'', drugName @ '' er'', drugName @ '' xl'',
              drugName @ '' xr'', drugName @ '' sustained release'', drugName @ '' sr'']
        else [drugName @ '' immediate release'', drugName @ '' ir''])
     @ (if str_includes (toLowerCase (fullContext medication)) ''respimat''
        then [drugName @ '' respimat'']
        else [])
     @ [drugName]"

definition generateSearchTerms :: "medication \<Rightarrow> string list" where
  "generateSearchTerms medication =
     (let medName = toLowerCase (name medication);
          delivery = delivery_of medication;
          combinationPermutations = generateCombinationPermutations medName
      in new_Set (concat (map (terms_for medication delivery) combinationPermutations)))"

text \<open>
  The two properties the specification states of every generated term: it is lower-cased,
  and its white space is normalised (none at either end, no two in a row).
\<close>

definition lower_cased :: "string \<Rightarrow> bool" where
  "lower_cased t = (toLowerCase t = t)"

fun single_spaced :: "string \<Rightarrow> bool" where
  "single_spaced (x # y # ys) = (\<not> (isWhiteSpace x \<and> isWhiteSpace y) \<and> single_spaced (y # ys))"
| "single_spaced _ = True"

definition whitespace_normalized :: "string \<Rightarrow> bool" where
  "whitespace_normalized t = (str_trim t = t \<and> single_spaced t)"

section \<open>The expander and the generator, read as specifications\<close>

text \<open>
  De-duplication that preserves the order of first occurrence, said without a loop: the
  elements at the positions where an element occurs for the first time, in the order of
  those positions.
\<close>

definition first_occurrences :: "'a list \<Rightarrow> 'a list" where
  "first_occurrences xs =
     map (\<lambda>i. xs ! i) (filter (\<lambda>i. xs ! i \<notin> set (take i xs)) [0..<length xs])"

text \<open>
  The expansion of a name before de-duplication: the name; for a name that contains \<open>/\<close>
  and splits at it into exactly two parts, trimmed to \<open>A\<close> and \<open>B\<close>, the eight forms
  \<open>A/B\<close>, \<open>B/A\<close>, \<open>A B\<close>, \<open>B A\<close>, \<open>A-B\<close>, \<open>B-A\<close>, \<open>A\<close>, \<open>B\<close>; then, for a name that
  contains \<open>and\<close> or \<open>&\<close> between spaces and splits there (at \<open>and\<close> when it has one)
  into exactly two parts, trimmed to \<open>C\<close> and \<open>D\<close>, the six forms \<open>C/D\<close>, \<open>D/C\<close>,
  \<open>C D\<close>, \<open>D C\<close>, \<open>C\<close>, \<open>D\<close>.
\<close>

definition expansion :: "string \<Rightarrow> string list" where
  "expansion n =
     (let bySlash = str_split n ''/'';
          byWord = str_split n (if str_includes n '' and '' then '' and '' else '' & '')
      in [n] @
         (if str_includes n ''/'' \<and> length bySlash = 2
          then (let A = str_trim (bySlash ! 0); B = str_trim (bySlash ! 1)
                in [A @ ''/'' @ B, B @ ''/'' @ A, A @ '' '' @ B, B @ '' '' @ A,
                    A @ ''-'' @ B, B @ ''-'' @ A, A, B])
          else []) @
         (if (str_includes n '' and '' \<or> str_includes n '' & '') \<and> length byWord = 2
          then (let C = str_trim (byWord ! 0); D = str_trim (byWord ! 1)
                in [C @ ''/'' @ D, D @ ''/'' @ C, C @ '' '' @ D, D @ '' '' @ C, C, D])
          else []))"

text \<open>
  The terms of one name variant \<open>v\<close>, in the five steps of the generator's contract:
  the delivery method \<open>dl\<close> (lower-cased, empty when the mention has none) with each
  formulation suffix and then alone; the aliases of the delivery methods \<open>inhaler\<close> and
  \<open>handihaler\<close>; the formulation suffixes without the delivery method; \<open>respimat\<close>
  when the context mentions it; the bare variant.
\<close>

definition with_delivery :: "formulation \<Rightarrow> string \<Rightarrow> string \<Rightarrow> string list" where
  "with_delivery f dl v =
     (if dl = [] then []
      else map (\<lambda>suffix. v @ '' '' @ dl @ suffix)
             (case f of
                ER \<Rightarrow> ['' extended release'', '' er'', '' xl'', '' xr'']
              | IR \<Rightarrow> ['' immediate release'', '' ir'']) @
           [v @ '' '' @ dl])"

definition delivery_aliases :: "string \<Rightarrow> string \<Rightarrow> string list" where
  "delivery_aliases dl v =
     (if dl = ''inhaler''
      then map (\<lambda>suffix. v @ suffix) ['' inhalation'', '' metered dose inhaler'', '' MDI'']
      else if dl = ''handihaler''
      then map (\<lambda>suffix. v @ suffix) ['' dry powder inhaler'', '' DPI'']
      else [])"

definition formulation_terms :: "formulation \<Rightarrow> string \<Rightarrow> string list" where
  "formulation_terms f v =
     map (\<lambda>suffix. v @ suffix)
       (case f of
          ER \<Rightarrow> ['' extended release'', '' er'', '' xl'', '' xr'', '' sustained release'', '' sr'']
        | IR \<Rightarrow> ['' immediate release'', '' ir''])"

definition variant_terms :: "formulation \<Rightarrow> string \<Rightarrow> string \<Rightarrow> string \<Rightarrow> string list" where
  "variant_terms f dl ctx v =
     with_delivery f dl v @ delivery_aliases dl v @ formulation_terms f v @
     (if str_includes (toLowerCase ctx) ''respimat'' then [v @ '' respimat''] else []) @ [v]"

section \<open>Search collaborator\<close>

text \<open>
  One entry of the \<open>data\<close> array of the label service, and the record
  \<open>searchMedications\<close> makes of it. A field that is absent is \<open>None\<close>; a field that is
  present is a string.
\<close>

record spl_item =
  item_setid :: "string option"
  item_title :: "string option"
  item_generic_name :: "string option"
  item_brand_name :: "string option"
  item_labeler :: "string option"

record DailyMedSearchResult =
  setId :: "string option"
  title :: "string option"
  genericName :: "string option"
  brandName :: "string option"
  labeler :: "string option"

text \<open>
  What one request to the label service comes to: \<open>Failure\<close> when the request throws,
  the status is not a success or the body cannot be read; \<open>NoData\<close> when the payload has
  no \<open>data\<close> array; the array otherwise. The service is a function of the query and of
  a state of the world, which it may change.
\<close>

datatype fetch_response = Failure | NoData | Data "spl_item list"

type_synonym 'w fetch = "string \<Rightarrow> 'w \<Rightarrow> fetch_response \<times> 'w"

datatype search_error = SearchFailed

definition or_empty :: "string option \<Rightarrow> string" where
  "or_empty v = (case v of None \<Rightarrow> [] | Some t \<Rightarrow> t)"

definition veterinaryKeywords :: "string list" where
  "veterinaryKeywords =
     [''zyvet'', ''animal health'', ''veterinary'', ''pet'', ''canine'', ''feline'',
      ''bovine'', ''equine'', ''porcine'', ''avian'', ''animal'', ''vet'']"

definition is_veterinary :: "string \<Rightarrow> string \<Rightarrow> bool" where
  "is_veterinary t l =
     list_ex (\<lambda>keyword. str_includes t keyword \<or> str_includes l keyword) veterinaryKeywords"

definition humanPharmaKeywords :: "string list" where
  "humanPharmaKeywords =
     [''pfizer'', ''merck'', ''novartis'', ''roche'', ''johnson'', ''abbvie'',
      ''bristol'', ''amgen'', ''gilead'', ''biogen'', ''celgene'', ''mylan'',
      ''teva'', ''sandoz'', ''apotex'', ''par'', ''watson'', ''actavis'',
      ''remedyrepack'', ''cardinal'', ''mckesson'']"

definition isHumanPharma :: "spl_item \<Rightarrow> bool" where
  "isHumanPharma a =
     (let aLabeler = toLowerCase (or_empty (item_labeler a))
      in list_ex (\<lambda>keyword. str_includes aLabeler keyword) humanPharmaKeywords)"

definition human_item :: "spl_item \<Rightarrow> bool" where
  "human_item item =
     (let title = toLowerCase (or_empty (item_title item));
          labeler = toLowerCase (or_empty (item_labeler item))
      in \<not> is_veterinary title labeler)"

text \<open>
  The comparator of the sort answers \<open>-1\<close>, \<open>1\<close> or \<open>0\<close> by whether each labeler is a
  human pharmaceutical company; \<open>Array.prototype.sort\<close> is stable. That is a stable sort
  on the key below.
\<close>

definition pharma_rank :: "spl_item \<Rightarrow> nat" where
  "pharma_rank a = (if isHumanPharma a then 0 else 1)"

definition to_result :: "spl_item \<Rightarrow> DailyMedSearchResult" where
  "to_result item =
     \<lparr>setId = item_setid item, title = item_title item, genericName = item_generic_name item,
      brandName = item_brand_name item, labeler = item_labeler item\<rparr>"

definition search_results :: "spl_item list \<Rightarrow> DailyMedSearchResult list" where
  "search_results items =
     (let humanMedications = filter human_item items;
          sortedResults = sort_key pharma_rank humanMedications
      in map to_result (take 5 sortedResults))"

definition searchMedications ::
  "'w fetch \<Rightarrow> string \<Rightarrow> 'w \<Rightarrow> (search_error + DailyMedSearchResult list) \<times> 'w" where
  "searchMedications fetch query w =
     (case fetch query w of
        (Failure, w') \<Rightarrow> (Inl SearchFailed, w')
      | (NoData, w') \<Rightarrow> (Inr [], w')
      | (Data items, w') \<Rightarrow> (Inr (search_results items), w'))"

section \<open>Candidate matcher\<close>

text \<open>
  The two patterns of the matcher:
  \<open>/\b(extended.release|extended-release|er|xl|xr|sustained.release|sustained-release|sr|la)\b/i\<close>
  and \<open>/\b(immediate.release|immediate-release|ir)\b/i\<close>.
\<close>

definition erIndicators :: "alternative list" where
  "erIndicators =
     [lits ''extended'' @ [AnyChar] @ lits ''release'', lits ''extended-release'',
      lits ''er'', lits ''xl'', lits ''xr'',
      lits ''sustained'' @ [AnyChar] @ lits ''release'', lits ''sustained-release'',
      lits ''sr'', lits ''la'']"

definition irIndicators :: "alternative list" where
  "irIndicators =
     [lits ''immediate'' @ [AnyChar] @ lits ''release'', lits ''immediate-release'', lits ''ir'']"

record match_result =
  isMatch :: bool
  reason :: string

definition lower_or_empty :: "string option \<Rightarrow> string" where
  "lower_or_empty v = (case v of None \<Rightarrow> [] | Some t \<Rightarrow> toLowerCase t)"

definition isAppropriateMatchWithReasons ::
  "medication \<Rightarrow> DailyMedSearchResult \<Rightarrow> match_result" where
  "isAppropriateMatchWithReasons medication result =
     (let title = lower_or_empty (title result);
          labeler = lower_or_empty (labeler result);
          medName = toLowerCase (name medication);
          delivery = delivery_of medication;
          drugComponents = generateCombinationPermutations medName;
          hasMatchingComponent =
            list_ex (\<lambda>component. str_includes title (toLowerCase component)) drugComponents
      in if \<not> hasMatchingComponent
         then \<lparr>isMatch = False, reason = ''doesn't contain any component of '' @ medName\<rparr>
         else if is_veterinary title labeler
         then \<lparr>isMatch = False, reason = ''veterinary/animal health product''\<rparr>
         else if delivery \<noteq> [] \<and> (delivery = ''inhaler'' \<or> delivery = ''handihaler'') \<and>
                 str_includes title ''solution'' \<and> \<not> str_includes title ''inhalation''
         then \<lparr>isMatch = False, reason = ''solution not appropriate for inhaler delivery''\<rparr>
         else if delivery \<noteq> [] \<and> (delivery = ''inhaler'' \<or> delivery = ''handihaler'') \<and>
                 (str_includes title ''tablet'' \<or> str_includes title ''capsule'')
         then \<lparr>isMatch = False,
               reason = ''tablet/capsule not appropriate for inhaler delivery''\<rparr>
         else if medName = ''tiotropium'' \<and>
                 \<not> str_includes (toLowerCase (fullContext medication)) ''olodaterol'' \<and>
                 str_includes title ''olodaterol''
         then \<lparr>isMatch = False,
               reason = ''contains olodaterol but patient info doesn't mention it''\<rparr>
         else if formulation medication = ER \<and> regex_test irIndicators title
         then \<lparr>isMatch = False,
               reason = ''explicitly states immediate release but patient needs ER''\<rparr>
         else if formulation medication = IR \<and> regex_test erIndicators title
         then \<lparr>isMatch = False, reason = ''extended release but patient needs IR''\<rparr>
         else \<lparr>isMatch = True, reason = ''appropriate match''\<rparr>)"

text \<open>
  A title conflicts with the requested formulation when an IR mention meets the ER pattern
  or an ER mention meets the IR pattern.
\<close>

definition formulation_conflict :: "formulation \<Rightarrow> string \<Rightarrow> bool" where
  "formulation_conflict f t =
     (case f of IR \<Rightarrow> regex_test erIndicators t | ER \<Rightarrow> regex_test irIndicators t)"

section \<open>Resolution orchestrator\<close>

text \<open>
  The mentions reach \<open>searchMultipleMedications\<close> as parsed JSON, so at run time a field
  may hold something that is not a string. The first statements of
  \<open>generateSearchTerms\<close> call \<open>toLowerCase\<close> on the name, on the delivery method
  unless it is undefined, and on the context; on a value that is not a string the call
  throws a \<open>TypeError\<close>, before the mention has logged anything. \<open>typed\<close> is that
  check: past it the mention has the declared types.
\<close>

datatype jsval = JString string | JUndefined | JNumber int

record js_medication =
  js_name :: jsval
  js_dosage :: jsval
  js_formulation :: formulation
  js_deliveryMethod :: jsval
  js_fullContext :: jsval

datatype type_error = TypeError

definition typed :: "js_medication \<Rightarrow> type_error + medication" where
  "typed raw =
     (case js_name raw of
        JString n \<Rightarrow>
          (case js_deliveryMethod raw of
             JNumber _ \<Rightarrow> Inl TypeError
           | d \<Rightarrow>
               (case js_fullContext raw of
                  JString c \<Rightarrow>
                    Inr \<lparr>name = n,
                         dosage = (case js_dosage raw of JString x \<Rightarrow> x | _ \<Rightarrow> []),
                         formulation = js_formulation raw,
                         deliveryMethod = (case d of JString x \<Rightarrow> Some x | _ \<Rightarrow> None),
                         fullContext = c\<rparr>
                | _ \<Rightarrow> Inl TypeError))
      | _ \<Rightarrow> Inl TypeError)"

definition truthy :: "jsval \<Rightarrow> bool" where
  "truthy v = (case v of JString x \<Rightarrow> x \<noteq> [] | JUndefined \<Rightarrow> False | JNumber n \<Rightarrow> n \<noteq> 0)"

record log_entry =
  log_medication :: jsval
  log_searchTerm :: string
  log_found :: bool
  log_resultTitle :: "string option"
  log_error :: "string option"
  log_rejectedReasons :: "string list option"
  log_requestedFormulation :: formulation
  log_deliveryMethod :: jsval

text \<open>
  The details record of a resolved medication: the accepted search result and its active
  ingredients. The five reference texts that the source adds are fixed tables keyed by the
  name and the formulation; they are left out.
\<close>

record DailyMedDetails = DailyMedSearchResult +
  activeIngredients :: "string list"

definition delivery_label :: "medication \<Rightarrow> jsval" where
  "delivery_label medication =
     (case deliveryMethod medication of
        None \<Rightarrow> JString ''unspecified''
      | Some d \<Rightarrow> if d = [] then JString ''unspecified'' else JString d)"

definition title_text :: "DailyMedSearchResult \<Rightarrow> string" where
  "title_text result = (case title result of None \<Rightarrow> ''undefined'' | Some t \<Rightarrow> t)"

text \<open>The loop over the top three results of one search term.\<close>

fun check_results ::
  "medication \<Rightarrow> DailyMedSearchResult list \<Rightarrow> DailyMedSearchResult option \<times> string list" where
  "check_results medication [] = (None, [])"
| "check_results medication (result # rest) =
     (let matchResult = isAppropriateMatchWithReasons medication result
      in if isMatch matchResult then (Some result, [])
         else (case check_results medication rest of
                 (best, rejected) \<Rightarrow>
                   (best, (title_text result @ '': '' @ reason matchResult) # rejected)))"

record search_state =
  bestResult :: "DailyMedSearchResult option"
  bestSearchTerm :: string
  allRejectedReasons :: "string list"
  searchErrors :: "string list"

definition dquote :: string where
  "dquote = [CHR 0x22]"

definition search_error_text :: string where
  "search_error_text = ''Error: Failed to search medications in DailyMed database''"

definition term_entry ::
  "medication \<Rightarrow> string \<Rightarrow> DailyMedSearchResult list \<Rightarrow> string list \<Rightarrow> log_entry" where
  "term_entry medication searchTerm searchResults rejected =
     \<lparr>log_medication = JString (name medication),
      log_searchTerm = searchTerm,
      log_found = (searchResults \<noteq> []),
      log_resultTitle = (case searchResults of [] \<Rightarrow> None | r # _ \<Rightarrow> title r),
      log_error =
        (if searchResults = [] then Some ''No results found in DailyMed database'' else None),
      log_rejectedReasons = Some rejected,
      log_requestedFormulation = formulation medication,
      log_deliveryMethod = delivery_label medication\<rparr>"

definition error_entry :: "medication \<Rightarrow> string \<Rightarrow> log_entry" where
  "error_entry medication searchTerm =
     \<lparr>log_medication = JString (name medication),
      log_searchTerm = searchTerm,
      log_found = False,
      log_resultTitle = None,
      log_error = Some (''Search failed: '' @ search_error_text),
      log_rejectedReasons = None,
      log_requestedFormulation = formulation medication,
      log_deliveryMethod = delivery_label medication\<rparr>"

text \<open>
  The loop over the generated search terms. A search that throws is caught at the term:
  it is logged and the loop goes on. The loop ends at the first term with an appropriate
  result among its top three.
\<close>

fun strict_search ::
  "'w fetch \<Rightarrow> medication \<Rightarrow> string list \<Rightarrow> search_state \<Rightarrow> log_entry list \<Rightarrow> 'w \<Rightarrow>
   search_state \<times> log_entry list \<times> 'w" where
  "strict_search fetch medication [] st searchLog w = (st, searchLog, w)"
| "strict_search fetch medication (searchTerm # terms) st searchLog w =
     (case searchMedications fetch searchTerm w of
        (Inl e, w') \<Rightarrow>
          strict_search fetch medication terms
            (st\<lparr>searchErrors := searchErrors st @
                 [''Error searching '' @ dquote @ searchTerm @ dquote @ '': '' @
                  search_error_text]\<rparr>)
            (searchLog @ [error_entry medication searchTerm]) w'
      | (Inr searchResults, w') \<Rightarrow>
          (case check_results medication (take 3 searchResults) of
             (best, rejected) \<Rightarrow>
               (let st' = st\<lparr>bestResult := (case best of None \<Rightarrow> bestResult st | Some r \<Rightarrow> Some r),
                             bestSearchTerm :=
                               (case best of None \<Rightarrow> bestSearchTerm st | Some r \<Rightarrow> searchTerm),
                             allRejectedReasons := allRejectedReasons st @ rejected\<rparr>;
                    searchLog' =
                      searchLog @ [term_entry medication searchTerm searchResults rejected]
                in if bestResult st' \<noteq> None then (st', searchLog', w')
                   else strict_search fetch medication terms st' searchLog' w')))"

text \<open>
  The relaxed pass. \<open>first_part n sep\<close> is \<open>n.split(sep)[0]\<close>; a split always has a
  first piece.
\<close>

definition first_part :: "string \<Rightarrow> string \<Rightarrow> string" where
  "first_part n sep = (case str_split n sep of [] \<Rightarrow> [] | p # _ \<Rightarrow> p)"

definition relaxedSearchTerms :: "medication \<Rightarrow> string list" where
  "relaxedSearchTerms medication =
     (let n = toLowerCase (name medication)
      in new_Set [n, first_part n ''/'', first_part n ''-''])"

definition hasBasicMatch :: "medication \<Rightarrow> string \<Rightarrow> bool" where
  "hasBasicMatch medication t =
     (str_includes t (toLowerCase (name medication)) \<or>
      str_includes t (first_part (toLowerCase (name medication)) ''/''))"

text \<open>The loop over up to ten results of one relaxed term; each test that fails skips
  the result.\<close>

fun relaxed_results :: "medication \<Rightarrow> DailyMedSearchResult list \<Rightarrow> DailyMedSearchResult option" where
  "relaxed_results medication [] = None"
| "relaxed_results medication (result # rest) =
     (let t = lower_or_empty (title result);
          l = lower_or_empty (labeler result)
      in if is_veterinary t l then relaxed_results medication rest
         else if \<not> hasBasicMatch medication t then relaxed_results medication rest
         else if formulation medication = IR \<and> regex_test erIndicators t
         then relaxed_results medication rest
         else if formulation medication = ER \<and> regex_test irIndicators t
         then relaxed_results medication rest
         else Some result)"

definition formulation_text :: "formulation \<Rightarrow> string" where
  "formulation_text f = (case f of IR \<Rightarrow> ''IR'' | ER \<Rightarrow> ''ER'')"

definition relaxed_entry :: "medication \<Rightarrow> string \<Rightarrow> DailyMedSearchResult \<Rightarrow> log_entry" where
  "relaxed_entry medication searchTerm result =
     \<lparr>log_medication = JString (name medication),
      log_searchTerm = searchTerm @ '' (relaxed)'',
      log_found = True,
      log_resultTitle = title result,
      log_error = Some (''Found with relaxed criteria - '' @
                        formulation_text (formulation medication) @ '' formulation preserved''),
      log_rejectedReasons = None,
      log_requestedFormulation = formulation medication,
      log_deliveryMethod = delivery_label medication\<rparr>"

text \<open>
  The loop over the relaxed terms. A search that throws is caught and printed, nothing is
  logged; a term with no acceptable result logs nothing either.
\<close>

fun relaxed_search ::
  "'w fetch \<Rightarrow> medication \<Rightarrow> string list \<Rightarrow> log_entry list \<Rightarrow> 'w \<Rightarrow>
   (DailyMedSearchResult option \<times> string) \<times> log_entry list \<times> 'w" where
  "relaxed_search fetch medication [] searchLog w = ((None, []), searchLog, w)"
| "relaxed_search fetch medication (searchTerm # terms) searchLog w =
     (case searchMedications fetch searchTerm w of
        (Inl e, w') \<Rightarrow> relaxed_search fetch medication terms searchLog w'
      | (Inr searchResults, w') \<Rightarrow>
          (case relaxed_results medication (take 10 searchResults) of
             Some result \<Rightarrow>
               ((Some result, searchTerm @ '' (relaxed)''),
                searchLog @ [relaxed_entry medication searchTerm result], w')
           | None \<Rightarrow> relaxed_search fetch medication terms searchLog w'))"

definition tryRelaxedSearch ::
  "'w fetch \<Rightarrow> medication \<Rightarrow> log_entry list \<Rightarrow> 'w \<Rightarrow>
   (DailyMedSearchResult option \<times> string) \<times> log_entry list \<times> 'w" where
  "tryRelaxedSearch fetch medication searchLog w =
     relaxed_search fetch medication (relaxedSearchTerms medication) searchLog w"

fun str_join :: "string \<Rightarrow> string list \<Rightarrow> string" where
  "str_join sep [] = []"
| "str_join sep [x] = x"
| "str_join sep (x # y # ys) = x @ sep @ str_join sep (y # ys)"

definition failure_entry :: "medication \<Rightarrow> search_state \<Rightarrow> log_entry" where
  "failure_entry medication st =
     \<lparr>log_medication = JString (name medication),
      log_searchTerm = ''SEARCH_FAILED'',
      log_found = False,
      log_resultTitle = None,
      log_error =
        Some (if searchErrors st \<noteq> []
              then ''Search errors: '' @ str_join ''; '' (searchErrors st)
              else if allRejectedReasons st \<noteq> []
              then ''Found results but all were rejected: '' @
                   str_join ''; '' (take 3 (allRejectedReasons st))
              else ''No results found in DailyMed database''),
      log_rejectedReasons = Some (take 5 (allRejectedReasons st)),
      log_requestedFormulation = formulation medication,
      log_deliveryMethod = delivery_label medication\<rparr>"

definition details_of :: "DailyMedSearchResult \<Rightarrow> DailyMedDetails" where
  "details_of r =
     \<lparr>setId = setId r, title = title r, genericName = genericName r, brandName = brandName r,
      labeler = labeler r,
      activeIngredients =
        (case genericName r of None \<Rightarrow> [] | Some g \<Rightarrow> if g = [] then [] else [g])\<rparr>"

definition initial_state :: search_state where
  "initial_state =
     \<lparr>bestResult = None, bestSearchTerm = [], allRejectedReasons = [], searchErrors = []\<rparr>"

text \<open>The body of the loop over the medications, for a mention of the declared types.\<close>

definition process_medication ::
  "'w fetch \<Rightarrow> medication \<Rightarrow> DailyMedDetails list \<Rightarrow> log_entry list \<Rightarrow> 'w \<Rightarrow>
   DailyMedDetails list \<times> log_entry list \<times> 'w" where
  "process_medication fetch medication results searchLog w =
     (case strict_search fetch medication (generateSearchTerms medication) initial_state
             searchLog w of
        (st, log1, w1) \<Rightarrow>
          (case bestResult st of
             Some r \<Rightarrow> (results @ [details_of r], log1, w1)
           | None \<Rightarrow>
               (case tryRelaxedSearch fetch medication log1 w1 of
                  ((Some r, t), log2, w2) \<Rightarrow> (results @ [details_of r], log2, w2)
                | ((None, t), log2, w2) \<Rightarrow>
                    (results, log2 @ [failure_entry medication st], w2))))"

definition processing_error_entry :: "js_medication \<Rightarrow> log_entry" where
  "processing_error_entry raw =
     \<lparr>log_medication = js_name raw,
      log_searchTerm = ''PROCESSING_ERROR'',
      log_found = False,
      log_resultTitle = None,
      log_error = Some ''Processing failed: TypeError'',
      log_rejectedReasons = None,
      log_requestedFormulation = js_formulation raw,
      log_deliveryMethod =
        (if truthy (js_deliveryMethod raw) then js_deliveryMethod raw
         else JString ''unspecified'')\<rparr>"

text \<open>
  The loop over the medications: an exception of the body is caught, logged as
  \<open>PROCESSING_ERROR\<close>, and the loop continues.
\<close>

fun medications_loop ::
  "'w fetch \<Rightarrow> js_medication list \<Rightarrow> DailyMedDetails list \<Rightarrow> log_entry list \<Rightarrow> 'w \<Rightarrow>
   DailyMedDetails list \<times> log_entry list \<times> 'w" where
  "medications_loop fetch [] results searchLog w = (results, searchLog, w)"
| "medications_loop fetch (raw # rest) results searchLog w =
     (case typed raw of
        Inl e \<Rightarrow>
          medications_loop fetch rest results (searchLog @ [processing_error_entry raw]) w
      | Inr medication \<Rightarrow>
          (case process_medication fetch medication results searchLog w of
             (results', searchLog', w') \<Rightarrow> medications_loop fetch rest results' searchLog' w'))"

definition searchMultipleMedications ::
  "'w fetch \<Rightarrow> js_medication list \<Rightarrow> 'w \<Rightarrow> DailyMedDetails list \<times> log_entry list \<times> 'w" where
  "searchMultipleMedications fetch medications w = medications_loop fetch medications [] [] w"

text \<open>
  A collaborator that also records, in order, every query it receives and what it
  answers.
\<close>

definition traced :: "'w fetch \<Rightarrow> ('w \<times> (string \<times> fetch_response) list) fetch" where
  "traced fetch query wt =
     (case wt of (w, tr) \<Rightarrow>
        (case fetch query w of (resp, w') \<Rightarrow> (resp, (w', tr @ [(query, resp)]))))"

section \<open>Extraction and the dosage-availability check\<close>

text \<open>
  \<open>extractMedicationsFromText\<close> decides the formulation of each extracted medication from
  the formulation the language model reports and from the context it reports, tested as a
  string by \<open>isExplicitlyER\<close>.
\<close>

fun nat_digits :: "nat \<Rightarrow> string" where
  "nat_digits n =
     (if n < 10 then [char_of (48 + n)] else nat_digits (n div 10) @ [char_of (48 + n mod 10)])"

definition js_to_string :: "jsval \<Rightarrow> string" where
  "js_to_string v =
     (case v of
        JString x \<Rightarrow> x
      | JUndefined \<Rightarrow> ''undefined''
      | JNumber n \<Rightarrow> if n < 0 then ''-'' @ nat_digits (nat (- n)) else nat_digits (nat n))"

definition finalFormulation :: "jsval \<Rightarrow> jsval \<Rightarrow> formulation" where
  "finalFormulation med_formulation med_fullContext =
     (if med_formulation = JString ''ER'' \<and> isExplicitlyER (js_to_string med_fullContext)
      then ER else IR)"

text \<open>
  \<open>extractDosageNumbers\<close>: every match of \<open>/\d+(?:\.\d+)?/g\<close>, as it stands and followed
  by \<open>mg\<close>, and the first match of \<open>/(\d+(?:\.\d+)?)\/(\d+(?:\.\d+)?)/\<close> written with
  three separators.
\<close>

definition isDigit :: "char \<Rightarrow> bool" where
  "isDigit c = (let n = (of_char c :: nat) in 48 \<le> n \<and> n \<le> 57)"

definition take_number :: "string \<Rightarrow> (string \<times> string) option" where
  "take_number s =
     (let ds = takeWhile isDigit s; r = dropWhile isDigit s
      in if ds = [] then None
         else (case r of
                 c # r' \<Rightarrow>
                   if c = CHR ''.'' \<and> takeWhile isDigit r' \<noteq> []
                   then Some (ds @ ''.'' @ takeWhile isDigit r', dropWhile isDigit r')
                   else Some (ds, r)
               | [] \<Rightarrow> Some (ds, r)))"

text \<open>The global match resumes where the last match ended, so the scan carries the
  number of characters still covered by it.\<close>

fun numbers_from :: "nat \<Rightarrow> string \<Rightarrow> string list" where
  "numbers_from k [] = []"
| "numbers_from (Suc k) (x # xs) = numbers_from k xs"
| "numbers_from 0 (x # xs) =
     (case take_number (x # xs) of
        None \<Rightarrow> numbers_from 0 xs
      | Some (m, r) \<Rightarrow> m # numbers_from (length m - 1) xs)"

definition all_numbers :: "string \<Rightarrow> string list" where
  "all_numbers s = numbers_from 0 s"

fun combination_match :: "string \<Rightarrow> (string \<times> string) option" where
  "combination_match [] = None"
| "combination_match (x # xs) =
     (case take_number (x # xs) of
        Some (a, c # r) \<Rightarrow>
          (if c = CHR ''/''
           then (case take_number r of
                   Some (b, r') \<Rightarrow> Some (a, b)
                 | None \<Rightarrow> combination_match xs)
           else combination_match xs)
      | _ \<Rightarrow> combination_match xs)"

definition extractDosageNumbers :: "string \<Rightarrow> string list" where
  "extractDosageNumbers d =
     new_Set
       (concat (map (\<lambda>m. [m @ ''mg'', m @ '' mg'', m]) (all_numbers d)) @
        (case combination_match d of
           Some (a, b) \<Rightarrow> [a @ ''/'' @ b, a @ '' / '' @ b, a @ ''-'' @ b]
         | None \<Rightarrow> []))"

record availableFormulations =
  avail_IR :: bool
  avail_ER :: bool

fun scan_results ::
  "string list \<Rightarrow> 'a DailyMedSearchResult_scheme list \<Rightarrow> availableFormulations \<Rightarrow>
   availableFormulations" where
  "scan_results dosagePattern [] av = av"
| "scan_results dosagePattern (result # rest) av =
     (let t = lower_or_empty (title result);
          hasMatchingDosage = list_ex (\<lambda>dose. str_includes t dose) dosagePattern
      in scan_results dosagePattern rest
           (if hasMatchingDosage
            then (if regex_test erIndicators t then av\<lparr>avail_ER := True\<rparr>
                  else if regex_test irIndicators t \<or> \<not> regex_test erIndicators t
                  then av\<lparr>avail_IR := True\<rparr>
                  else av)
            else av))"

definition validateDosageAvailability ::
  "medication \<Rightarrow> 'a DailyMedSearchResult_scheme list \<Rightarrow> formulation \<times> string" where
  "validateDosageAvailability medication searchResults =
     (let dosagePattern = extractDosageNumbers (dosage medication);
          av = scan_results dosagePattern searchResults \<lparr>avail_IR = False, avail_ER = False\<rparr>
      in if formulation medication = ER \<and> avail_ER av
         then (ER, ''ER explicitly requested and available'')
         else if formulation medication = ER \<and> \<not> avail_ER av \<and> avail_IR av
         then (IR, ''ER requested but not available, defaulting to IR'')
         else if avail_IR av then (IR, ''IR is default and available'')
         else if avail_ER av then (ER, ''only ER formulation available'')
         else (IR, ''no specific dosage found, defaulting to IR''))"

section \<open>What the two passes accept\<close>

text \<open>
  The strict pass accepts a result that \<open>isAppropriateMatchWithReasons\<close> takes for a
  match; the relaxed pass accepts a result that passes its three tests. \<open>candidates_of\<close>
  is the list \<open>searchMedications\<close> makes of an answer of the label service;
  \<open>strict_hit\<close> and \<open>relaxed_hit\<close> are the first acceptable result among its top
  three, and among its top ten.
\<close>

definition accepts :: "medication \<Rightarrow> DailyMedSearchResult \<Rightarrow> bool" where
  "accepts medication r = isMatch (isAppropriateMatchWithReasons medication r)"

definition relaxed_ok :: "medication \<Rightarrow> DailyMedSearchResult \<Rightarrow> bool" where
  "relaxed_ok medication r =
     (\<not> is_veterinary (lower_or_empty (title r)) (lower_or_empty (labeler r)) \<and>
      hasBasicMatch medication (lower_or_empty (title r)) \<and>
      \<not> formulation_conflict (formulation medication) (lower_or_empty (title r)))"

definition candidates_of :: "fetch_response \<Rightarrow> DailyMedSearchResult list" where
  "candidates_of resp = (case resp of Data items \<Rightarrow> search_results items | _ \<Rightarrow> [])"

definition strict_hit :: "medication \<Rightarrow> fetch_response \<Rightarrow> DailyMedSearchResult option" where
  "strict_hit medication resp = find (accepts medication) (take 3 (candidates_of resp))"

definition relaxed_hit :: "medication \<Rightarrow> fetch_response \<Rightarrow> DailyMedSearchResult option" where
  "relaxed_hit medication resp = find (relaxed_ok medication) (take 10 (candidates_of resp))"

definition acceptable :: "medication \<Rightarrow> DailyMedSearchResult \<Rightarrow> bool" where
  "acceptable m c = (accepts m c \<or> relaxed_ok m c)"

text \<open>
  Reading a recorded run: \<open>no_hit hit tr\<close> says that no answer in the stretch \<open>tr\<close> of
  the record has an acceptable result; \<open>hit_last hit tr q c\<close> that the stretch ends with
  the query \<open>q\<close>, that the answer to \<open>q\<close> is the first with an acceptable result, and
  that \<open>c\<close> is the first acceptable result in it.
\<close>

type_synonym trace = "(string \<times> fetch_response) list"

definition no_hit :: "(fetch_response \<Rightarrow> 'a option) \<Rightarrow> trace \<Rightarrow> bool" where
  "no_hit hit tr = list_all (\<lambda>(q, r). hit r = None) tr"

definition hit_last :: "(fetch_response \<Rightarrow> 'a option) \<Rightarrow> trace \<Rightarrow> string \<Rightarrow> 'a \<Rightarrow> bool" where
  "hit_last hit tr q c = (\<exists>pre r. tr = pre @ [(q, r)] \<and> no_hit hit pre \<and> hit r = Some c)"

text \<open>
  What the resolution of one mention of the declared types adds to the results \<open>rs\<close>, to
  the log \<open>lgs\<close> and to the record of queries \<open>trs\<close>, in its three outcomes. The strict
  pass logs one entry for each of its queries, in order, and ends at its first acceptable
  result. If it runs through all its terms without one, the relaxed pass follows; it ends
  at its first acceptable result and logs that alone. If both passes run through all
  their terms, nothing is resolved and the closing entry is \<open>SEARCH_FAILED\<close>.
\<close>

definition strict_resolved ::
  "medication \<Rightarrow> DailyMedDetails list \<Rightarrow> log_entry list \<Rightarrow> trace \<Rightarrow> bool" where
  "strict_resolved m rs lgs trs =
     (\<exists>q c. hit_last (strict_hit m) trs q c \<and>
        map log_searchTerm lgs = map fst trs \<and>
        prefix (map fst trs) (generateSearchTerms m) \<and> rs = [details_of c])"

definition relaxed_resolved ::
  "medication \<Rightarrow> DailyMedDetails list \<Rightarrow> log_entry list \<Rightarrow> trace \<Rightarrow> bool" where
  "relaxed_resolved m rs lgs trs =
     (\<exists>strict relaxed entries q c.
        trs = strict @ relaxed \<and> lgs = entries @ [relaxed_entry m q c] \<and>
        map log_searchTerm entries = map fst strict \<and>
        map fst strict = generateSearchTerms m \<and> no_hit (strict_hit m) strict \<and>
        prefix (map fst relaxed) (relaxedSearchTerms m) \<and>
        hit_last (relaxed_hit m) relaxed q c \<and> rs = [details_of c])"

definition unresolved ::
  "medication \<Rightarrow> DailyMedDetails list \<Rightarrow> log_entry list \<Rightarrow> trace \<Rightarrow> bool" where
  "unresolved m rs lgs trs =
     (\<exists>strict relaxed entries st.
        trs = strict @ relaxed \<and> lgs = entries @ [failure_entry m st] \<and>
        map log_searchTerm entries = map fst strict \<and>
        map fst strict = generateSearchTerms m \<and> no_hit (strict_hit m) strict \<and>
        map fst relaxed = relaxedSearchTerms m \<and> no_hit (relaxed_hit m) relaxed \<and> rs = [])"

definition resolution ::
  "medication \<Rightarrow> DailyMedDetails list \<Rightarrow> log_entry list \<Rightarrow> trace \<Rightarrow> bool" where
  "resolution m rs lgs trs =
     (strict_resolved m rs lgs trs \<or> relaxed_resolved m rs lgs trs \<or> unresolved m rs lgs trs)"

text \<open>What one mention of a batch adds: a mention that fails the type check adds the
  \<open>PROCESSING_ERROR\<close> entry and nothing else.\<close>

definition mention_outcome ::
  "js_medication \<Rightarrow> DailyMedDetails list \<times> log_entry list \<times> trace \<Rightarrow> bool" where
  "mention_outcome raw seg =
     (case seg of (rs, lgs, trs) \<Rightarrow>
        (case typed raw of
           Inl e \<Rightarrow> rs = [] \<and> lgs = [processing_error_entry raw] \<and> trs = []
         | Inr m \<Rightarrow> resolution m rs lgs trs))"

text \<open>
  The entry of a resolved mention, field by field: the five fields of the accepted
  candidate as they are, and for active ingredients the generic name alone when the
  candidate has one that is not empty, nothing otherwise.
\<close>

definition entry_of :: "DailyMedSearchResult \<Rightarrow> DailyMedDetails \<Rightarrow> bool" where
  "entry_of c e =
     (setId e = setId c \<and> title e = title c \<and> genericName e = genericName c \<and>
      brandName e = brandName c \<and> labeler e = labeler c \<and>
      activeIngredients e =
        (case genericName c of None \<Rightarrow> [] | Some g \<Rightarrow> if g = [] then [] else [g]))"

text \<open>
  What one mention of a batch adds to the results \<open>rs\<close> and to the record of queries
  \<open>trs\<close> under the rule that the first accepted candidate wins. A mention that fails
  the type check adds nothing. For any other mention the record is the queries of the
  strict pass followed by those of the relaxed pass, and one of three holds. The strict
  queries are the generated terms up to and including the first whose top three hold a
  candidate the strict matcher accepts, no relaxed query follows, and the one entry added
  is that of the first such candidate. Or every generated term was queried without such a
  candidate, the relaxed queries are the relaxed terms up to and including the first
  whose top ten hold a candidate the relaxed pass accepts, and the one entry added is
  that of the first such candidate. Or both passes queried all their terms without an
  accepted candidate and no entry is added.
\<close>

definition first_accept :: "js_medication \<Rightarrow> DailyMedDetails list \<times> trace \<Rightarrow> bool" where
  "first_accept raw seg =
     (case seg of (rs, trs) \<Rightarrow>
        (case typed raw of
           Inl e \<Rightarrow> rs = [] \<and> trs = []
         | Inr m \<Rightarrow>
             (\<exists>strict relaxed. trs = strict @ relaxed \<and>
                ((\<exists>q c e. prefix (map fst strict) (generateSearchTerms m) \<and>
                    hit_last (strict_hit m) strict q c \<and> relaxed = [] \<and>
                    entry_of c e \<and> rs = [e]) \<or>
                 (\<exists>q c e. map fst strict = generateSearchTerms m \<and>
                    no_hit (strict_hit m) strict \<and>
                    prefix (map fst relaxed) (relaxedSearchTerms m) \<and>
                    hit_last (relaxed_hit m) relaxed q c \<and> entry_of c e \<and> rs = [e]) \<or>
                 (map fst strict = generateSearchTerms m \<and> no_hit (strict_hit m) strict \<and>
                  map fst relaxed = relaxedSearchTerms m \<and>
                  no_hit (relaxed_hit m) relaxed \<and> rs = [])))))"

section \<open>Stub collaborators\<close>

text \<open>A label service that answers every query with the same eight entries.\<close>

definition item :: "string \<Rightarrow> string \<Rightarrow> string \<Rightarrow> spl_item" where
  "item i t l =
     \<lparr>item_setid = Some i, item_title = Some t, item_generic_name = None,
      item_brand_name = None, item_labeler = Some l\<rparr>"

definition ranked_items :: "spl_item list" where
  "ranked_items =
     [item ''1'' ''Metformin A'' ''Acme'', item ''2'' ''Pet Metformin'' ''Acme'',
      item ''3'' ''Metformin B'' ''Pfizer'', item ''4'' ''Metformin C'' ''Dog Vet Co'',
      item ''5'' ''Metformin D'' ''Zed'', item ''6'' ''Metformin E'' ''Teva'',
      item ''7'' ''Metformin F'' ''Yoyo'', item ''8'' ''Metformin G'' ''Xeno'']"

definition ranked_fetch :: "unit fetch" where
  "ranked_fetch query w = (Data ranked_items, w)"

text \<open>
  A label service that knows three queries, fails on every query about warfarin and has
  no data for anything else.
\<close>

definition pharmacy_fetch :: "unit fetch" where
  "pharmacy_fetch query w =
     (if query = ''metformin''
      then (Data [item ''m-er'' ''Metformin Extended-Release Tablets'' ''Teva'',
                  item ''m-ir'' ''Metformin Hydrochloride Tablets'' ''Acme''], w)
      else if query = ''lisinopril ir''
      then (Data [item ''l-1'' ''Lisinopril Tablets'' ''Acme''], w)
      else if query = ''tiotropium''
      then (Data [item ''t-1'' ''Tiotropium Bromide Capsule'' ''Acme''], w)
      else if prefix ''warfarin'' query then (Failure, w)
      else (NoData, w))"

text \<open>A label service that knows one long-acting insulin and nothing else.\<close>

definition long_acting_insulin :: spl_item where
  "long_acting_insulin = item ''i-la'' ''Insulin Long-Acting Injection'' ''Acme''"

definition insulin_fetch :: "unit fetch" where
  "insulin_fetch query w =
     (if query = ''insulin'' then (Data [long_acting_insulin], w) else (NoData, w))"

definition insulin :: medication where
  "insulin =
     \<lparr>name = ''insulin'', dosage = ''10 units'', formulation = IR, deliveryMethod = None,
      fullContext = ''insulin 10 units at bedtime''\<rparr>"

definition insulin_mention :: js_medication where
  "insulin_mention =
     \<lparr>js_name = JString ''insulin'', js_dosage = JString ''10 units'', js_formulation = IR,
      js_deliveryMethod = JUndefined, js_fullContext = JString ''insulin 10 units at bedtime''\<rparr>"

definition mention :: "string \<Rightarrow> formulation \<Rightarrow> string \<Rightarrow> js_medication" where
  "mention n f d =
     \<lparr>js_name = JString n, js_dosage = JString [], js_formulation = f,
      js_deliveryMethod = JString d, js_fullContext = JString n\<rparr>"

definition tiotropium :: medication where
  "tiotropium =
     \<lparr>name = ''Tiotropium'', dosage = ''18mcg'', formulation = IR,
      deliveryMethod = Some ''HandiHaler'', fullContext = ''Tiotropium 18mcg via HandiHaler''\<rparr>"

definition warfarin :: medication where
  "warfarin =
     \<lparr>name = ''Warfarin'', dosage = [], formulation = IR, deliveryMethod = Some [],
      fullContext = ''Warfarin''\<rparr>"


section \<open>Regular expression matching, characterised\<close>

lemma last_or_Cons: "last_or p (x # m) = last_or (Some x) m"
  by (simp add: last_or_def)

lemma ex_cons_split:
  "(\<exists>m. x # xs = m @ r \<and> (case m of [] \<Rightarrow> False | y # ys \<Rightarrow> Q y ys) \<and> p' = last_or p m)
   \<longleftrightarrow> (\<exists>ys. xs = ys @ r \<and> Q x ys \<and> p' = last_or (Some x) ys)"
proof
  assume "\<exists>m. x # xs = m @ r \<and> (case m of [] \<Rightarrow> False | y # ys \<Rightarrow> Q y ys) \<and> p' = last_or p m"
  then obtain m where m: "x # xs = m @ r" "case m of [] \<Rightarrow> False | y # ys \<Rightarrow> Q y ys" "p' = last_or p m"
    by blast
  then obtain y ys where "m = y # ys" by (cases m) auto
  with m show "\<exists>ys. xs = ys @ r \<and> Q x ys \<and> p' = last_or (Some x) ys"
    by (auto simp: last_or_Cons)
next
  assume "\<exists>ys. xs = ys @ r \<and> Q x ys \<and> p' = last_or (Some x) ys"
  then obtain ys where "xs = ys @ r" "Q x ys" "p' = last_or (Some x) ys" by blast
  then have "x # xs = (x # ys) @ r \<and> (case x # ys of [] \<Rightarrow> False | y # ys \<Rightarrow> Q y ys) \<and> p' = last_or p (x # ys)"
    by (simp add: last_or_Cons)
  then show "\<exists>m. x # xs = m @ r \<and> (case m of [] \<Rightarrow> False | y # ys \<Rightarrow> Q y ys) \<and> p' = last_or p m"
    by blast
qed

lemma ex_nil_split:
  "\<not> (\<exists>m. [] = m @ r \<and> (case m of [] \<Rightarrow> False | y # ys \<Rightarrow> Q y ys) \<and> p' = last_or p m)"
  by auto

lemma match_atoms_iff:
  "(p', r) \<in> set (match_atoms as p s) \<longleftrightarrow> (\<exists>m. s = m @ r \<and> atoms_match as m \<and> p' = last_or p m)"
proof (induction as arbitrary: p s)
  case Nil
  show ?case by (auto simp: last_or_def)
next
  case (Cons a as)
  show ?case
  proof (cases a)
    case (Lit c)
    show ?thesis
    proof (cases s)
      case Nil
      then show ?thesis using Lit by (simp add: ex_nil_split)
    next
      case (Cons x xs)
      then show ?thesis using Lit Cons.IH [of "Some x" xs]
        by (auto simp: ex_cons_split [where Q = "\<lambda>y ys. ci_eq y c \<and> atoms_match as ys"])
    qed
  next
    case AnyChar
    show ?thesis
    proof (cases s)
      case Nil
      then show ?thesis using AnyChar by (simp add: ex_nil_split)
    next
      case (Cons x xs)
      then show ?thesis using AnyChar Cons.IH [of "Some x" xs]
        by (auto simp: ex_cons_split [where Q = "\<lambda>y ys. \<not> isLineTerminator y \<and> atoms_match as ys"])
    qed
  next
    case OptAnyChar
    have split: "(\<exists>m. s = m @ r \<and> atoms_match (a # as) m \<and> p' = last_or p m) \<longleftrightarrow>
          (\<exists>m. s = m @ r \<and> (case m of [] \<Rightarrow> False | x # xs \<Rightarrow> \<not> isLineTerminator x \<and> atoms_match as xs) \<and> p' = last_or p m)
          \<or> (\<exists>m. s = m @ r \<and> atoms_match as m \<and> p' = last_or p m)"
      using OptAnyChar by auto
    show ?thesis
    proof (cases s)
      case Nil
      then show ?thesis unfolding split using OptAnyChar Cons.IH [of p "[]"]
        by (simp add: ex_nil_split)
    next
      case (Cons x xs)
      then show ?thesis unfolding split using OptAnyChar Cons.IH [of "Some x" xs] Cons.IH [of p s]
        by (auto simp: ex_cons_split [where Q = "\<lambda>y ys. \<not> isLineTerminator y \<and> atoms_match as ys"])
    qed
  qed
qed

lemma match_here_iff:
  "match_here alts p s \<longleftrightarrow>
     word_boundary p s \<and>
     (\<exists>alt \<in> set alts. \<exists>m r. s = m @ r \<and> atoms_match alt m \<and> word_boundary (last_or p m) r)"
proof -
  have "list_ex (\<lambda>(p', r). word_boundary p' r) (match_atoms alt p s) \<longleftrightarrow>
        (\<exists>m r. s = m @ r \<and> atoms_match alt m \<and> word_boundary (last_or p m) r)" for alt
  proof -
    have "list_ex (\<lambda>(p', r). word_boundary p' r) (match_atoms alt p s) \<longleftrightarrow>
          (\<exists>p' r. (p', r) \<in> set (match_atoms alt p s) \<and> word_boundary p' r)"
      by (auto simp: list_ex_iff)
    also have "\<dots> \<longleftrightarrow> (\<exists>m r. s = m @ r \<and> atoms_match alt m \<and> word_boundary (last_or p m) r)"
      unfolding match_atoms_iff by blast
    finally show ?thesis .
  qed
  then show ?thesis
    by (simp add: match_here_def list_ex_iff)
qed

lemma search_from_iff:
  "search_from alts p s \<longleftrightarrow> (\<exists>pre post. s = pre @ post \<and> match_here alts (last_or p pre) post)"
proof (induction s arbitrary: p)
  case Nil
  show ?case by (simp add: last_or_def)
next
  case (Cons x xs)
  have "(\<exists>pre post. x # xs = pre @ post \<and> match_here alts (last_or p pre) post) \<longleftrightarrow>
        match_here alts p (x # xs) \<or>
        (\<exists>pre post. xs = pre @ post \<and> match_here alts (last_or (Some x) pre) post)"
    (is "?L \<longleftrightarrow> ?A \<or> ?B")
  proof
    assume ?L
    then obtain pre post where h: "x # xs = pre @ post" "match_here alts (last_or p pre) post"
      by blast
    show "?A \<or> ?B"
    proof (cases pre)
      case Nil
      with h show ?thesis by (simp add: last_or_def)
    next
      case (Cons y ys)
      with h have "xs = ys @ post" "match_here alts (last_or (Some x) ys) post"
        by (simp_all add: last_or_Cons)
      then show ?thesis by blast
    qed
  next
    assume "?A \<or> ?B"
    then show ?L
    proof
      assume ?A
      then have "x # xs = [] @ (x # xs) \<and> match_here alts (last_or p []) (x # xs)"
        by (simp add: last_or_def)
      then show ?L by blast
    next
      assume ?B
      then obtain pre post where "xs = pre @ post" "match_here alts (last_or (Some x) pre) post"
        by blast
      then have "x # xs = (x # pre) @ post \<and> match_here alts (last_or p (x # pre)) post"
        by (simp add: last_or_Cons)
      then show ?L by blast
    qed
  qed
  then show ?case using Cons.IH [of "Some x"] by simp
qed

lemma regex_test_iff:
  "regex_test alts s \<longleftrightarrow>
     (\<exists>pre m post. s = pre @ m @ post \<and> (\<exists>alt \<in> set alts. atoms_match alt m) \<and>
        word_boundary (last_or None pre) (m @ post) \<and>
        word_boundary (last_or (last_or None pre) m) post)"
  unfolding regex_test_def search_from_iff match_here_iff by blast

lemma word_boundary_before:
  assumes "m \<noteq> []" "isWordChar (hd m)"
  shows "word_boundary (last_or None pre) (m @ post) \<longleftrightarrow> (pre = [] \<or> \<not> isWordChar (last pre))"
  using assms by (cases m) (auto simp: word_boundary_def is_word_def next_char_def last_or_def)

lemma word_boundary_after:
  assumes "m \<noteq> []" "isWordChar (last m)"
  shows "word_boundary (last_or q m) post \<longleftrightarrow> (post = [] \<or> \<not> isWordChar (hd post))"
  using assms by (cases post) (auto simp: word_boundary_def is_word_def next_char_def last_or_def)

lemma regex_test_whole_word:
  assumes "\<And>alt m. alt \<in> set alts \<Longrightarrow> atoms_match alt m \<Longrightarrow>
             m \<noteq> [] \<and> isWordChar (hd m) \<and> isWordChar (last m)"
  shows "regex_test alts s \<longleftrightarrow> whole_word_occurrence (\<lambda>m. \<exists>alt \<in> set alts. atoms_match alt m) s"
proof -
  have "(\<exists>alt \<in> set alts. atoms_match alt m) \<and>
        word_boundary (last_or None pre) (m @ post) \<and>
        word_boundary (last_or (last_or None pre) m) post \<longleftrightarrow>
        (\<exists>alt \<in> set alts. atoms_match alt m) \<and>
        (pre = [] \<or> \<not> isWordChar (last pre)) \<and> (post = [] \<or> \<not> isWordChar (hd post))"
    for pre m post
    using assms [of _ m] word_boundary_before [of m pre post]
      word_boundary_after [of m "last_or None pre" post]
    by blast
  then show ?thesis
    unfolding regex_test_iff whole_word_occurrence_def by simp
qed

lemma isWordChar_toLowerChar [simp]: "isWordChar (toLowerChar c) = isWordChar c"
  by (auto simp: isWordChar_def toLowerChar_def Let_def)

lemma toLowerChar_idem [simp]: "toLowerChar (toLowerChar c) = toLowerChar c"
  by (auto simp: toLowerChar_def Let_def)

lemma toLowerCase_idem [simp]: "toLowerCase (toLowerCase s) = toLowerCase s"
  by (simp add: toLowerCase_def)

lemma toLowerChar_not_word: "of_char d < (65::nat) \<Longrightarrow> toLowerChar c = d \<Longrightarrow> c = d"
  by (auto simp: toLowerChar_def Let_def split: if_splits)

lemma atoms_match_lits: "atoms_match (lits kw) m \<longleftrightarrow> toLowerCase m = toLowerCase kw"
proof (induction kw arbitrary: m)
  case Nil
  show ?case by (simp add: lits_def toLowerCase_def)
next
  case (Cons k kw)
  then show ?case
    by (cases m) (auto simp: lits_def toLowerCase_def ci_eq_def)
qed

lemma ex_cons_append:
  "(\<exists>m1 m2. x # xs = m1 @ m2 \<and> (case m1 of [] \<Rightarrow> False | y # ys \<Rightarrow> Q y ys) \<and> R m2)
   \<longleftrightarrow> (\<exists>ys m2. xs = ys @ m2 \<and> Q x ys \<and> R m2)"
proof
  assume "\<exists>m1 m2. x # xs = m1 @ m2 \<and> (case m1 of [] \<Rightarrow> False | y # ys \<Rightarrow> Q y ys) \<and> R m2"
  then obtain m1 m2 where h: "x # xs = m1 @ m2" "case m1 of [] \<Rightarrow> False | y # ys \<Rightarrow> Q y ys" "R m2"
    by blast
  then obtain y ys where "m1 = y # ys" by (cases m1) auto
  with h show "\<exists>ys m2. xs = ys @ m2 \<and> Q x ys \<and> R m2" by auto
next
  assume "\<exists>ys m2. xs = ys @ m2 \<and> Q x ys \<and> R m2"
  then obtain ys m2 where "xs = ys @ m2" "Q x ys" "R m2" by blast
  then have "x # xs = (x # ys) @ m2 \<and> (case x # ys of [] \<Rightarrow> False | y # ys \<Rightarrow> Q y ys) \<and> R m2"
    by simp
  then show "\<exists>m1 m2. x # xs = m1 @ m2 \<and> (case m1 of [] \<Rightarrow> False | y # ys \<Rightarrow> Q y ys) \<and> R m2"
    by blast
qed

lemma ex_nil_append:
  "\<not> (\<exists>m1 m2. [] = m1 @ m2 \<and> (case m1 of [] \<Rightarrow> False | y # ys \<Rightarrow> Q y ys) \<and> R m2)"
  by auto

lemma atoms_match_append:
  "atoms_match (as @ bs) m \<longleftrightarrow> (\<exists>m1 m2. m = m1 @ m2 \<and> atoms_match as m1 \<and> atoms_match bs m2)"
proof (induction as arbitrary: m)
  case Nil
  show ?case by simp
next
  case (Cons a as)
  show ?case
  proof (cases a)
    case (Lit c)
    show ?thesis
    proof (cases m)
      case Nil
      then show ?thesis using Lit by (simp add: ex_nil_append)
    next
      case (Cons x xs)
      then show ?thesis using Lit Cons.IH [of xs]
        by (auto simp: ex_cons_append [where Q = "\<lambda>y ys. ci_eq y c \<and> atoms_match as ys"])
    qed
  next
    case AnyChar
    show ?thesis
    proof (cases m)
      case Nil
      then show ?thesis using AnyChar by (simp add: ex_nil_append)
    next
      case (Cons x xs)
      then show ?thesis using AnyChar Cons.IH [of xs]
        by (auto simp: ex_cons_append [where Q = "\<lambda>y ys. \<not> isLineTerminator y \<and> atoms_match as ys"])
    qed
  next
    case OptAnyChar
    have split: "(\<exists>m1 m2. m = m1 @ m2 \<and> atoms_match (a # as) m1 \<and> atoms_match bs m2) \<longleftrightarrow>
        (\<exists>m1 m2. m = m1 @ m2 \<and>
           (case m1 of [] \<Rightarrow> False | x # xs \<Rightarrow> \<not> isLineTerminator x \<and> atoms_match as xs) \<and>
           atoms_match bs m2)
        \<or> (\<exists>m1 m2. m = m1 @ m2 \<and> atoms_match as m1 \<and> atoms_match bs m2)"
      using OptAnyChar by auto
    show ?thesis
    proof (cases m)
      case Nil
      then show ?thesis unfolding split using OptAnyChar Cons.IH [of "[]"]
        by (simp add: ex_nil_append)
    next
      case (Cons x xs)
      then show ?thesis unfolding split using OptAnyChar Cons.IH [of xs] Cons.IH [of m]
        by (auto simp: ex_cons_append [where Q = "\<lambda>y ys. \<not> isLineTerminator y \<and> atoms_match as ys"])
    qed
  qed
qed

lemma lower_ends:
  assumes "toLowerCase x = w" "w \<noteq> []" "isWordChar (hd w)" "isWordChar (last w)"
  shows "x \<noteq> [] \<and> isWordChar (hd x) \<and> isWordChar (last x)"
proof -
  from assms(1,2) have ne: "x \<noteq> []" by (auto simp: toLowerCase_def)
  then have "hd w = toLowerChar (hd x)" "last w = toLowerChar (last x)"
    using assms(1) by (auto simp: toLowerCase_def hd_map last_map)
  with assms(3,4) ne show ?thesis by simp
qed

lemma atoms_match_OptAnyChar:
  "atoms_match [OptAnyChar] sep \<longleftrightarrow> length sep \<le> 1 \<and> (\<forall>c \<in> set sep. \<not> isLineTerminator c)"
  by (cases sep) auto

lemma atoms_match_joined:
  "atoms_match (lits a @ OptAnyChar # lits b) m \<longleftrightarrow> joined (toLowerCase a) (toLowerCase b) m"
proof -
  have "atoms_match (lits a @ [OptAnyChar] @ lits b) m \<longleftrightarrow>
        joined (toLowerCase a) (toLowerCase b) m"
    unfolding atoms_match_append atoms_match_lits atoms_match_OptAnyChar joined_def
    by blast
  then show ?thesis by simp
qed

lemma lower_literals:
  "toLowerCase ''extended'' = ''extended''" "toLowerCase ''sustained'' = ''sustained''"
  "toLowerCase ''release'' = ''release''" "toLowerCase ''long'' = ''long''"
  "toLowerCase ''acting'' = ''acting''" "toLowerCase ''er'' = ''er''"
  "toLowerCase ''xl'' = ''xl''" "toLowerCase ''xr'' = ''xr''" "toLowerCase ''sr'' = ''sr''"
  "toLowerCase ''la'' = ''la''" "toLowerCase ''immediate'' = ''immediate''"
  "toLowerCase ''ir'' = ''ir''"
  by code_simp+

lemma erKeywords_iff: "(\<exists>alt \<in> set erKeywords. atoms_match alt m) \<longleftrightarrow> er_cue m"
  unfolding erKeywords_def er_cue_def
  by (auto simp: atoms_match_joined atoms_match_lits lower_literals)

lemma joined_ends:
  assumes "joined a b m" "a \<noteq> []" "isWordChar (hd a)" "b \<noteq> []" "isWordChar (last b)"
  shows "m \<noteq> [] \<and> isWordChar (hd m) \<and> isWordChar (last m)"
proof -
  from assms(1) obtain x sep y where m: "m = x @ sep @ y" "toLowerCase x = a" "toLowerCase y = b"
    unfolding joined_def by blast
  from m(2) assms(2) have x: "x \<noteq> []" by (auto simp: toLowerCase_def)
  from m(3) assms(4) have y: "y \<noteq> []" by (auto simp: toLowerCase_def)
  have "hd a = toLowerChar (hd x)" using m(2) x by (auto simp: toLowerCase_def hd_map)
  moreover have "last b = toLowerChar (last y)" using m(3) y by (auto simp: toLowerCase_def last_map)
  ultimately show ?thesis using assms(3,5) x y m(1) by simp
qed

lemma word_literals:
  "isWordChar CHR ''e''" "isWordChar CHR ''r''" "isWordChar CHR ''x''" "isWordChar CHR ''l''"
  "isWordChar CHR ''s''" "isWordChar CHR ''a''" "isWordChar CHR ''g''" "isWordChar CHR ''i''"
  by code_simp+

lemma er_cue_ends:
  assumes "er_cue m"
  shows "m \<noteq> [] \<and> isWordChar (hd m) \<and> isWordChar (last m)"
proof -
  consider w where "toLowerCase m = w" "w \<in> {''er'', ''xl'', ''xr'', ''sr'', ''la''}"
    | "joined ''extended'' ''release'' m" | "joined ''sustained'' ''release'' m"
    | "joined ''long'' ''acting'' m"
    using assms unfolding er_cue_def by blast
  then show ?thesis
  proof cases
    case 1
    then show ?thesis using lower_ends [of m w] by (auto simp: word_literals)
  next
    case 2
    then show ?thesis using joined_ends by (simp add: word_literals)
  next
    case 3
    then show ?thesis using joined_ends by (simp add: word_literals)
  next
    case 4
    then show ?thesis using joined_ends by (simp add: word_literals)
  qed
qed

lemma isExplicitlyER_iff: "isExplicitlyER s \<longleftrightarrow> whole_word_occurrence er_cue s"
proof -
  have "regex_test erKeywords s \<longleftrightarrow>
        whole_word_occurrence (\<lambda>m. \<exists>alt \<in> set erKeywords. atoms_match alt m) s"
    using erKeywords_iff er_cue_ends by (intro regex_test_whole_word) blast
  then show ?thesis by (simp add: isExplicitlyER_def erKeywords_iff)
qed

lemma toLowerChar_nonword: "of_char d < (65::nat) \<Longrightarrow> toLowerChar d = d"
  by (auto simp: toLowerChar_def Let_def)

lemma lits_sep_joined:
  assumes "of_char d < (65::nat)" "\<not> isLineTerminator d"
    "toLowerCase m = toLowerCase (a @ d # b)"
  shows "joined (toLowerCase a) (toLowerCase b) m"
proof -
  have "atoms_match (lits a @ [Lit d] @ lits b) m"
    using assms(3) atoms_match_lits [of "a @ d # b" m] by (simp add: lits_def)
  then obtain x sep y where m: "m = x @ sep @ y" "atoms_match (lits a) x"
    "atoms_match [Lit d] sep" "atoms_match (lits b) y"
    unfolding atoms_match_append by blast
  from m(3) obtain c where c: "sep = [c]" "ci_eq c d"
    by (cases sep) (auto split: list.splits)
  then have "c = d"
    using assms(1) toLowerChar_not_word [of d c] by (simp add: ci_eq_def toLowerChar_nonword)
  with c assms(2) have "length sep \<le> 1 \<and> (\<forall>c \<in> set sep. \<not> isLineTerminator c)" by simp
  with m show ?thesis unfolding joined_def atoms_match_lits by blast
qed

lemma separator_literals:
  "of_char CHR '' '' < (65::nat)" "\<not> isLineTerminator CHR '' ''"
  "of_char CHR ''-'' < (65::nat)" "\<not> isLineTerminator CHR ''-''"
  by code_simp+

lemma er_keyword_is_cue:
  assumes "kw \<in> set er_keywords_spec" "toLowerCase m = toLowerCase kw"
  shows "er_cue m"
proof -
  have c1: "er_cue m" if "toLowerCase m = toLowerCase ''extended release''"
    using lits_sep_joined [of "CHR '' ''" m "''extended''" "''release''"] that separator_literals
    by (simp add: er_cue_def lower_literals)
  have c2: "er_cue m" if "toLowerCase m = toLowerCase ''extended-release''"
    using lits_sep_joined [of "CHR ''-''" m "''extended''" "''release''"] that separator_literals
    by (simp add: er_cue_def lower_literals)
  have c3: "er_cue m" if "toLowerCase m = toLowerCase ''sustained release''"
    using lits_sep_joined [of "CHR '' ''" m "''sustained''" "''release''"] that separator_literals
    by (simp add: er_cue_def lower_literals)
  have c4: "er_cue m" if "toLowerCase m = toLowerCase ''sustained-release''"
    using lits_sep_joined [of "CHR ''-''" m "''sustained''" "''release''"] that separator_literals
    by (simp add: er_cue_def lower_literals)
  have c5: "er_cue m" if "toLowerCase m = toLowerCase ''long-acting''"
    using lits_sep_joined [of "CHR ''-''" m "''long''" "''acting''"] that separator_literals
    by (simp add: er_cue_def lower_literals)
  have c6: "er_cue m" if "toLowerCase m = toLowerCase ''er''"
    using that by (simp add: er_cue_def lower_literals)
  have c7: "er_cue m" if "toLowerCase m = toLowerCase ''xr''"
    using that by (simp add: er_cue_def lower_literals)
  have c8: "er_cue m" if "toLowerCase m = toLowerCase ''xl''"
    using that by (simp add: er_cue_def lower_literals)
  have c9: "er_cue m" if "toLowerCase m = toLowerCase ''la''"
    using that by (simp add: er_cue_def lower_literals)
  have c10: "er_cue m" if "toLowerCase m = toLowerCase ''sr''"
    using that by (simp add: er_cue_def lower_literals)
  from assms(1) have "kw = ''extended release'' \<or> kw = ''extended-release'' \<or>
      kw = ''er'' \<or> kw = ''xr'' \<or> kw = ''xl'' \<or> kw = ''la'' \<or>
      kw = ''sustained release'' \<or> kw = ''sustained-release'' \<or> kw = ''sr'' \<or>
      kw = ''long-acting''"
    by (simp add: er_keywords_spec_def)
  then show ?thesis
  proof (elim disjE)
    assume "kw = ''extended release''" then show ?thesis using c1 assms(2) by simp
  next
    assume "kw = ''extended-release''" then show ?thesis using c2 assms(2) by simp
  next
    assume "kw = ''er''" then show ?thesis using c6 assms(2) by simp
  next
    assume "kw = ''xr''" then show ?thesis using c7 assms(2) by simp
  next
    assume "kw = ''xl''" then show ?thesis using c8 assms(2) by simp
  next
    assume "kw = ''la''" then show ?thesis using c9 assms(2) by simp
  next
    assume "kw = ''sustained release''" then show ?thesis using c3 assms(2) by simp
  next
    assume "kw = ''sustained-release''" then show ?thesis using c4 assms(2) by simp
  next
    assume "kw = ''sr''" then show ?thesis using c10 assms(2) by simp
  next
    assume "kw = ''long-acting''" then show ?thesis using c5 assms(2) by simp
  qed
qed

lemma whole_word_occurrence_mono:
  assumes "whole_word_occurrence P s" "\<And>m. P m \<Longrightarrow> Q m"
  shows "whole_word_occurrence Q s"
  using assms unfolding whole_word_occurrence_def by blast

lemma contains_er_keyword_cue:
  assumes "contains_er_keyword s"
  shows "whole_word_occurrence er_cue s"
proof -
  from assms obtain kw where kw: "kw \<in> set er_keywords_spec" "contains_word kw s"
    by (auto simp: contains_er_keyword_def list_ex_iff)
  from kw(2) have "whole_word_occurrence (\<lambda>m. toLowerCase m = toLowerCase kw) s"
    unfolding contains_word_def .
  then show ?thesis
    by (rule whole_word_occurrence_mono) (rule er_keyword_is_cue [OF kw(1)])
qed

lemma contains_word_regex:
  assumes "kw \<noteq> []" "isWordChar (hd kw)" "isWordChar (last kw)"
  shows "contains_word kw s \<longleftrightarrow> regex_test [lits kw] s"
proof -
  have "m \<noteq> [] \<and> isWordChar (hd m) \<and> isWordChar (last m)" if "atoms_match (lits kw) m" for m
  proof -
    have "toLowerCase m = toLowerCase kw" using that by (simp add: atoms_match_lits)
    moreover have "toLowerCase kw \<noteq> []" "isWordChar (hd (toLowerCase kw))"
      "isWordChar (last (toLowerCase kw))"
      using assms by (simp_all add: toLowerCase_def hd_map last_map)
    ultimately show ?thesis using lower_ends by blast
  qed
  then have "regex_test [lits kw] s \<longleftrightarrow>
             whole_word_occurrence (\<lambda>m. \<exists>alt \<in> set [lits kw]. atoms_match alt m) s"
    by (intro regex_test_whole_word) simp
  then show ?thesis by (simp add: contains_word_def atoms_match_lits)
qed

lemma contains_er_keyword_code:
  "contains_er_keyword s \<longleftrightarrow> list_ex (\<lambda>kw. regex_test [lits kw] s) er_keywords_spec"
proof -
  have "contains_word kw s \<longleftrightarrow> regex_test [lits kw] s" if "kw \<in> set er_keywords_spec" for kw
  proof (rule contains_word_regex)
    show "kw \<noteq> []" using that by (auto simp: er_keywords_spec_def)
    show "isWordChar (hd kw)" using that by (auto simp: er_keywords_spec_def word_literals)
    show "isWordChar (last kw)" using that by (auto simp: er_keywords_spec_def word_literals)
  qed
  then show ?thesis by (auto simp: contains_er_keyword_def list_ex_iff)
qed

section \<open>C1: the formulation classifier\<close>

text \<open>
  C1, as amended. \<open>isExplicitlyER\<close> answers true exactly when the context holds, as a
  whole word and whatever the case, one of \<open>er\<close>, \<open>xl\<close>, \<open>xr\<close>, \<open>sr\<close>, \<open>la\<close>, or
  \<open>extended\<close> and \<open>release\<close>, \<open>sustained\<close> and \<open>release\<close>, \<open>long\<close> and \<open>acting\<close>
  with at most one character (any but a line terminator) between the two words. Each of
  the ten keywords of the specification is such a cue, so a context containing one of them
  is classified ER; a context with no such cue is classified IR.
\<close>

theorem isExplicitlyER_cues:
  "(isExplicitlyER ctx \<longleftrightarrow> whole_word_occurrence er_cue ctx) \<and>
   (contains_er_keyword ctx \<longrightarrow> isExplicitlyER ctx)"
  using isExplicitlyER_iff contains_er_keyword_cue by blast

text \<open>The theorem at the context \<open>Metformin XR 500mg\<close>.\<close>

theorem isExplicitlyER_cues_witness:
  "contains_er_keyword ''Metformin XR 500mg'' \<and> isExplicitlyER ''Metformin XR 500mg''"
proof -
  have "list_ex (\<lambda>kw. regex_test [lits kw] ''Metformin XR 500mg'') er_keywords_spec"
    by code_simp
  then have "contains_er_keyword ''Metformin XR 500mg''"
    by (simp add: contains_er_keyword_code)
  then show ?thesis using isExplicitlyER_cues [of "''Metformin XR 500mg''"] by blast
qed

text \<open>
  The claim as first stated fails: \<open>extendedrelease\<close> contains none of the ten keywords
  as a whole word, and is classified ER, since \<open>.?\<close> also matches no character.
\<close>

theorem isExplicitlyER_keywords_counterexample:
  "isExplicitlyER ''extendedrelease'' \<and> \<not> contains_er_keyword ''extendedrelease''"
proof -
  have "isExplicitlyER ''extendedrelease''" by code_simp
  moreover have "\<not> list_ex (\<lambda>kw. regex_test [lits kw] ''extendedrelease'') er_keywords_spec"
    by code_simp
  ultimately show ?thesis by (simp add: contains_er_keyword_code)
qed

section \<open>C2: no formulation ER without an explicit cue\<close>

lemma finalFormulation_ER:
  "finalFormulation f c = ER \<longleftrightarrow> f = JString ''ER'' \<and> isExplicitlyER (js_to_string c)"
  by (simp add: finalFormulation_def)

text \<open>
  C2. Extraction gives ER only to a medication whose context passes \<open>isExplicitlyER\<close>
  (\<open>finalFormulation_ER\<close>). The dosage-availability check does not keep to that: for a
  mention that requested IR, with the context \<open>Metformin 500mg twice daily\<close> that has
  no ER cue, and a result titled \<open>Metformin Hydrochloride ER 500 mg Tablets\<close>, it answers
  ER, by its branch \<open>only ER formulation available\<close>. The comment above that code says
  that ER is used only if explicitly requested and available.
\<close>

theorem validateDosageAvailability_IR_to_ER:
  "\<not> isExplicitlyER ''Metformin 500mg twice daily'' \<and>
   finalFormulation (JString ''ER'') (JString ''Metformin 500mg twice daily'') = IR \<and>
   validateDosageAvailability
     \<lparr>name = ''metformin'', dosage = ''500mg'', formulation = IR, deliveryMethod = None,
      fullContext = ''Metformin 500mg twice daily''\<rparr>
     [\<lparr>setId = Some ''s1'', title = Some ''Metformin Hydrochloride ER 500 mg Tablets'',
       genericName = None, brandName = None, labeler = None\<rparr>]
   = (ER, ''only ER formulation available'')"
  by code_simp

lemma set_add_acc:
  "foldl set_add acc xs = acc @ foldl set_add [] (filter (\<lambda>x. x \<notin> set acc) xs)"
proof (induction "length xs" arbitrary: xs acc rule: less_induct)
  case less
  show ?case
  proof (cases xs)
    case Nil
    then show ?thesis by simp
  next
    case (Cons x ys)
    show ?thesis
    proof (cases "x \<in> set acc")
      case True
      then show ?thesis using Cons less [of ys acc] by (simp add: set_add_def)
    next
      case False
      let ?zs = "filter (\<lambda>y. y \<notin> set acc) ys"
      have "foldl set_add (acc @ [x]) ys =
            (acc @ [x]) @ foldl set_add [] (filter (\<lambda>y. y \<notin> set (acc @ [x])) ys)"
        using Cons by (intro less) simp
      moreover have "length ?zs < length xs"
        using Cons by (simp add: less_Suc_eq_le)
      then have "foldl set_add [x] ?zs =
            [x] @ foldl set_add [] (filter (\<lambda>y. y \<notin> set [x]) ?zs)"
        by (rule less)
      moreover have "filter (\<lambda>y. y \<notin> set [x]) ?zs = filter (\<lambda>y. y \<notin> set (acc @ [x])) ys"
        by (auto intro: filter_cong)
      ultimately show ?thesis using False Cons by (simp add: set_add_def)
    qed
  qed
qed

lemma new_Set_Nil [simp]: "new_Set [] = []"
  by (simp add: new_Set_def)

lemma new_Set_Cons: "new_Set (x # xs) = x # new_Set (filter (\<lambda>y. y \<noteq> x) xs)"
  using set_add_acc [of "[x]" xs] by (simp add: new_Set_def set_add_def)

lemma set_new_Set [simp]: "set (new_Set xs) = set xs"
proof (induction "length xs" arbitrary: xs rule: less_induct)
  case less
  show ?case
  proof (cases xs)
    case Nil
    then show ?thesis by simp
  next
    case (Cons x ys)
    have "length (filter (\<lambda>y. y \<noteq> x) ys) < length xs"
      using Cons by (simp add: less_Suc_eq_le)
    then have "set (new_Set (filter (\<lambda>y. y \<noteq> x) ys)) = set (filter (\<lambda>y. y \<noteq> x) ys)"
      by (rule less)
    then show ?thesis using Cons by (auto simp: new_Set_Cons)
  qed
qed

lemma distinct_new_Set [simp]: "distinct (new_Set xs)"
proof (induction "length xs" arbitrary: xs rule: less_induct)
  case less
  show ?case
  proof (cases xs)
    case Nil
    then show ?thesis by simp
  next
    case (Cons x ys)
    have "length (filter (\<lambda>y. y \<noteq> x) ys) < length xs"
      using Cons by (simp add: less_Suc_eq_le)
    then have "distinct (new_Set (filter (\<lambda>y. y \<noteq> x) ys))"
      by (rule less)
    then show ?thesis using Cons by (simp add: new_Set_Cons)
  qed
qed

lemma new_Set_hd: "new_Set (x # xs) \<noteq> [] \<and> hd (new_Set (x # xs)) = x"
  by (simp add: new_Set_Cons)

lemma new_Set_singleton [simp]: "new_Set [x] = [x]"
  by (simp add: new_Set_Cons)

lemma first_occurrences_Nil [simp]: "first_occurrences [] = []"
  by (simp add: first_occurrences_def)

lemma first_occurrences_snoc:
  "first_occurrences (xs @ [x]) =
     (if x \<in> set xs then first_occurrences xs else first_occurrences xs @ [x])"
proof -
  have "filter (\<lambda>i. (xs @ [x]) ! i \<notin> set (take i (xs @ [x]))) [0..<length xs] =
        filter (\<lambda>i. xs ! i \<notin> set (take i xs)) [0..<length xs]"
    by (rule filter_cong) (auto simp: nth_append)
  moreover have "map (\<lambda>i. (xs @ [x]) ! i) (filter (\<lambda>i. xs ! i \<notin> set (take i xs)) [0..<length xs]) =
        map (\<lambda>i. xs ! i) (filter (\<lambda>i. xs ! i \<notin> set (take i xs)) [0..<length xs])"
    by (rule map_cong) (auto simp: nth_append)
  ultimately show ?thesis
    by (simp add: first_occurrences_def)
qed

lemma new_Set_snoc: "new_Set (xs @ [x]) = (if x \<in> set xs then new_Set xs else new_Set xs @ [x])"
  using set_new_Set [of xs] by (simp add: new_Set_def set_add_def del: set_new_Set)

lemma new_Set_first_occurrences: "new_Set xs = first_occurrences xs"
  by (induction xs rule: rev_induct) (simp_all add: new_Set_snoc first_occurrences_snoc)

section \<open>C4: the combination-name expander\<close>

lemma permutations_head:
  "generateCombinationPermutations n \<noteq> [] \<and> hd (generateCombinationPermutations n) = n"
  by (simp add: generateCombinationPermutations_def new_Set_Cons)

lemma set_permutations:
  "set (generateCombinationPermutations n) =
     {n} \<union> set (slash_permutations n) \<union> set (and_permutations n)"
  by (simp add: generateCombinationPermutations_def)

lemma slash_permutations_eq:
  "slash_permutations n =
     (if str_includes n ''/'' \<and> length (str_split n ''/'') = 2
      then slash_forms (str_trim (str_split n ''/'' ! 0)) (str_trim (str_split n ''/'' ! 1))
      else [])"
  by (auto simp: slash_permutations_def split: list.splits)

lemma and_permutations_eq:
  "and_permutations n =
     (if (str_includes n '' and '' \<or> str_includes n '' & '') \<and>
         length (str_split n (if str_includes n '' and '' then '' and '' else '' & '')) = 2
      then and_forms
             (str_trim (str_split n (if str_includes n '' and '' then '' and '' else '' & '') ! 0))
             (str_trim (str_split n (if str_includes n '' and '' then '' and '' else '' & '') ! 1))
      else [])"
  by (auto simp: and_permutations_def Let_def split: list.splits)

lemma expansion_eq: "expansion n = [n] @ slash_permutations n @ and_permutations n"
  unfolding slash_permutations_eq and_permutations_eq
  by (simp add: expansion_def Let_def slash_forms_def and_forms_def)

lemma generateCombinationPermutations_expansion:
  "generateCombinationPermutations n = first_occurrences (expansion n)"
  by (simp only: generateCombinationPermutations_def expansion_eq new_Set_first_occurrences)

text \<open>
  C4, as amended. The expander's list is the expansion of the name with its duplicates
  removed, each element standing where it first occurs: the expansion is the name, then
  the eight forms of a name that contains \<open>/\<close> and splits there into exactly two parts,
  then the six forms of a name that contains \<open>and\<close> or \<open>&\<close> between spaces and splits
  there into exactly two parts. So the list starts with the original name and has no
  duplicates. A name containing \<open>/\<close> that splits into exactly two parts, trimmed to \<open>p0\<close>
  and \<open>p1\<close>, also yields both slash forms, both space-joined forms, both dash-joined
  forms and the two components; when it holds neither \<open>and\<close> nor \<open>&\<close> between spaces
  the list is exactly the name and these eight forms, de-duplicated. A name containing
  \<open>and\<close> or \<open>&\<close> between spaces that splits into exactly two parts, trimmed to \<open>q0\<close>
  and \<open>q1\<close>, yields both slash forms, both space-joined forms and the two components;
  when it holds no \<open>/\<close> the list is exactly the name and these six forms, de-duplicated,
  so a dash-joined form is in it only if it is one of them. A name with no separator
  yields the singleton list of itself.
\<close>

theorem generateCombinationPermutations_contract:
  "generateCombinationPermutations n \<noteq> [] \<and>
   hd (generateCombinationPermutations n) = n \<and>
   distinct (generateCombinationPermutations n) \<and>
   (str_includes n ''/'' \<and> map str_trim (str_split n ''/'') = [p0, p1] \<longrightarrow>
      set [p0 @ ''/'' @ p1, p1 @ ''/'' @ p0, p0 @ '' '' @ p1, p1 @ '' '' @ p0,
           p0 @ ''-'' @ p1, p1 @ ''-'' @ p0, p0, p1]
      \<subseteq> set (generateCombinationPermutations n)) \<and>
   (str_includes n '' and '' \<and> map str_trim (str_split n '' and '') = [q0, q1] \<or>
    \<not> str_includes n '' and '' \<and> str_includes n '' & '' \<and>
      map str_trim (str_split n '' & '') = [q0, q1] \<longrightarrow>
      set [q0 @ ''/'' @ q1, q1 @ ''/'' @ q0, q0 @ '' '' @ q1, q1 @ '' '' @ q0, q0, q1]
      \<subseteq> set (generateCombinationPermutations n)) \<and>
   (\<not> str_includes n ''/'' \<and> \<not> str_includes n '' and '' \<and> \<not> str_includes n '' & '' \<longrightarrow>
      generateCombinationPermutations n = [n]) \<and>
   generateCombinationPermutations n = first_occurrences (expansion n) \<and>
   (str_includes n ''/'' \<and> map str_trim (str_split n ''/'') = [p0, p1] \<and>
    \<not> str_includes n '' and '' \<and> \<not> str_includes n '' & '' \<longrightarrow>
      generateCombinationPermutations n =
        first_occurrences
          [n, p0 @ ''/'' @ p1, p1 @ ''/'' @ p0, p0 @ '' '' @ p1, p1 @ '' '' @ p0,
           p0 @ ''-'' @ p1, p1 @ ''-'' @ p0, p0, p1]) \<and>
   (\<not> str_includes n ''/'' \<and>
    (str_includes n '' and '' \<and> map str_trim (str_split n '' and '') = [q0, q1] \<or>
     \<not> str_includes n '' and '' \<and> str_includes n '' & '' \<and>
       map str_trim (str_split n '' & '') = [q0, q1]) \<longrightarrow>
      generateCombinationPermutations n =
        first_occurrences
          [n, q0 @ ''/'' @ q1, q1 @ ''/'' @ q0, q0 @ '' '' @ q1, q1 @ '' '' @ q0, q0, q1])"
proof (intro conjI impI)
  show "generateCombinationPermutations n \<noteq> []" "hd (generateCombinationPermutations n) = n"
    using permutations_head by simp_all
  show "distinct (generateCombinationPermutations n)"
    by (simp add: generateCombinationPermutations_def)
  show "generateCombinationPermutations n = first_occurrences (expansion n)"
    by (rule generateCombinationPermutations_expansion)
next
  assume "str_includes n ''/'' \<and> map str_trim (str_split n ''/'') = [p0, p1]"
  then have "slash_permutations n = slash_forms p0 p1"
    by (simp add: slash_permutations_def)
  then show "set [p0 @ ''/'' @ p1, p1 @ ''/'' @ p0, p0 @ '' '' @ p1, p1 @ '' '' @ p0,
           p0 @ ''-'' @ p1, p1 @ ''-'' @ p0, p0, p1]
      \<subseteq> set (generateCombinationPermutations n)"
    unfolding set_permutations by (simp add: slash_forms_def)
next
  assume "str_includes n '' and '' \<and> map str_trim (str_split n '' and '') = [q0, q1] \<or>
    \<not> str_includes n '' and '' \<and> str_includes n '' & '' \<and>
      map str_trim (str_split n '' & '') = [q0, q1]"
  then have "and_permutations n = and_forms q0 q1"
    by (auto simp: and_permutations_def)
  then show "set [q0 @ ''/'' @ q1, q1 @ ''/'' @ q0, q0 @ '' '' @ q1, q1 @ '' '' @ q0, q0, q1]
      \<subseteq> set (generateCombinationPermutations n)"
    unfolding set_permutations by (simp add: and_forms_def)
next
  assume "\<not> str_includes n ''/'' \<and> \<not> str_includes n '' and '' \<and> \<not> str_includes n '' & ''"
  then show "generateCombinationPermutations n = [n]"
    by (simp add: generateCombinationPermutations_def slash_permutations_def and_permutations_def)
next
  assume h: "str_includes n ''/'' \<and> map str_trim (str_split n ''/'') = [p0, p1] \<and>
    \<not> str_includes n '' and '' \<and> \<not> str_includes n '' & ''"
  then have "slash_permutations n = slash_forms p0 p1" "and_permutations n = []"
    by (simp_all add: slash_permutations_def and_permutations_def)
  then show "generateCombinationPermutations n =
        first_occurrences
          [n, p0 @ ''/'' @ p1, p1 @ ''/'' @ p0, p0 @ '' '' @ p1, p1 @ '' '' @ p0,
           p0 @ ''-'' @ p1, p1 @ ''-'' @ p0, p0, p1]"
    by (simp add: generateCombinationPermutations_def new_Set_first_occurrences slash_forms_def)
next
  assume h: "\<not> str_includes n ''/'' \<and>
    (str_includes n '' and '' \<and> map str_trim (str_split n '' and '') = [q0, q1] \<or>
     \<not> str_includes n '' and '' \<and> str_includes n '' & '' \<and>
       map str_trim (str_split n '' & '') = [q0, q1])"
  then have "and_permutations n = and_forms q0 q1"
    by (auto simp: and_permutations_def)
  moreover from h have "slash_permutations n = []"
    by (simp add: slash_permutations_def)
  ultimately show "generateCombinationPermutations n =
        first_occurrences
          [n, q0 @ ''/'' @ q1, q1 @ ''/'' @ q0, q0 @ '' '' @ q1, q1 @ '' '' @ q0, q0, q1]"
    by (simp add: generateCombinationPermutations_def new_Set_first_occurrences and_forms_def)
qed

text \<open>
  The theorem at a slash name, at an ampersand name, at a plain name, at the slash name
  \<open>a/a\<close>, whose expansion repeats itself, and at the name \<open>a and b\<close>.
\<close>

theorem generateCombinationPermutations_contract_witness:
  "set [''hydrochlorothiazide/lisinopril'', ''lisinopril'', ''hydrochlorothiazide'']
     \<subseteq> set (generateCombinationPermutations ''lisinopril/hydrochlorothiazide'') \<and>
   set [''b/a'', ''a b'', ''a'', ''b''] \<subseteq> set (generateCombinationPermutations ''a & b'') \<and>
   generateCombinationPermutations ''metformin'' = [''metformin''] \<and>
   generateCombinationPermutations ''a/a'' =
     first_occurrences
       [''a/a'', ''a/a'', ''a/a'', ''a a'', ''a a'', ''a-a'', ''a-a'', ''a'', ''a''] \<and>
   first_occurrences
       [''a/a'', ''a/a'', ''a/a'', ''a a'', ''a a'', ''a-a'', ''a-a'', ''a'', ''a''] =
     [''a/a'', ''a a'', ''a-a'', ''a''] \<and>
   generateCombinationPermutations ''a and b'' =
     first_occurrences [''a and b'', ''a/b'', ''b/a'', ''a b'', ''b a'', ''a'', ''b'']"
proof -
  note T1 = generateCombinationPermutations_contract
    [of "''lisinopril/hydrochlorothiazide''" "''lisinopril''" "''hydrochlorothiazide''"]
  note T2 = generateCombinationPermutations_contract [of "''a & b''" _ _ "''a''" "''b''"]
  note T3 = generateCombinationPermutations_contract [of "''metformin''"]
  note T4 = generateCombinationPermutations_contract [of "''a/a''" "''a''" "''a''"]
  note T5 = generateCombinationPermutations_contract [of "''a and b''" _ _ "''a''" "''b''"]
  have h1: "str_includes ''lisinopril/hydrochlorothiazide'' ''/'' \<and>
      map str_trim (str_split ''lisinopril/hydrochlorothiazide'' ''/'') =
        [''lisinopril'', ''hydrochlorothiazide'']"
    by code_simp
  have h2: "str_includes ''a & b'' '' and '' \<and>
        map str_trim (str_split ''a & b'' '' and '') = [''a'', ''b''] \<or>
      \<not> str_includes ''a & b'' '' and '' \<and> str_includes ''a & b'' '' & '' \<and>
        map str_trim (str_split ''a & b'' '' & '') = [''a'', ''b'']"
    by code_simp
  have h3: "\<not> str_includes ''metformin'' ''/'' \<and> \<not> str_includes ''metformin'' '' and '' \<and>
      \<not> str_includes ''metformin'' '' & ''"
    by code_simp
  have h4: "str_includes ''a/a'' ''/'' \<and> map str_trim (str_split ''a/a'' ''/'') = [''a'', ''a''] \<and>
      \<not> str_includes ''a/a'' '' and '' \<and> \<not> str_includes ''a/a'' '' & ''"
    by code_simp
  have h5: "\<not> str_includes ''a and b'' ''/'' \<and>
      (str_includes ''a and b'' '' and '' \<and>
         map str_trim (str_split ''a and b'' '' and '') = [''a'', ''b''] \<or>
       \<not> str_includes ''a and b'' '' and '' \<and> str_includes ''a and b'' '' & '' \<and>
         map str_trim (str_split ''a and b'' '' & '') = [''a'', ''b''])"
    by code_simp
  have c1: "set [''hydrochlorothiazide/lisinopril'', ''lisinopril'', ''hydrochlorothiazide'']
     \<subseteq> set (generateCombinationPermutations ''lisinopril/hydrochlorothiazide'')"
    using mp [OF T1 [THEN conjunct2, THEN conjunct2, THEN conjunct2, THEN conjunct1] h1]
    by simp
  have c2: "set [''b/a'', ''a b'', ''a'', ''b''] \<subseteq> set (generateCombinationPermutations ''a & b'')"
    using mp [OF T2 [THEN conjunct2, THEN conjunct2, THEN conjunct2, THEN conjunct2,
      THEN conjunct1] h2]
    by simp
  have c3: "generateCombinationPermutations ''metformin'' = [''metformin'']"
    by (rule mp [OF T3 [THEN conjunct2, THEN conjunct2, THEN conjunct2, THEN conjunct2,
      THEN conjunct2, THEN conjunct1] h3])
  have c4: "generateCombinationPermutations ''a/a'' =
     first_occurrences
       [''a/a'', ''a/a'', ''a/a'', ''a a'', ''a a'', ''a-a'', ''a-a'', ''a'', ''a'']"
    using mp [OF T4 [THEN conjunct2, THEN conjunct2, THEN conjunct2, THEN conjunct2,
      THEN conjunct2, THEN conjunct2, THEN conjunct2, THEN conjunct1] h4]
    by simp
  have e: "first_occurrences
       [''a/a'', ''a/a'', ''a/a'', ''a a'', ''a a'', ''a-a'', ''a-a'', ''a'', ''a''] =
     [''a/a'', ''a a'', ''a-a'', ''a'']"
    by code_simp
  have c5: "generateCombinationPermutations ''a and b'' =
     first_occurrences [''a and b'', ''a/b'', ''b/a'', ''a b'', ''b a'', ''a'', ''b'']"
    using mp [OF T5 [THEN conjunct2, THEN conjunct2, THEN conjunct2, THEN conjunct2,
      THEN conjunct2, THEN conjunct2, THEN conjunct2, THEN conjunct2] h5]
    by simp
  show ?thesis
    by (rule conjI [OF c1 conjI [OF c2 conjI [OF c3 conjI [OF c4 conjI [OF e c5]]]]])
qed

text \<open>
  The claim as first stated gives a name joined by \<open>and\<close> the same expansion as a slash
  name; the dash-joined form is missing from the expansion of \<open>a and b\<close>.
\<close>

theorem and_permutations_counterexample:
  "str_includes ''a and b'' '' and '' \<and>
   map str_trim (str_split ''a and b'' '' and '') = [''a'', ''b''] \<and>
   ''a-b'' \<notin> set (generateCombinationPermutations ''a and b'')"
  by code_simp

lemma lower_cased_iff: "lower_cased s \<longleftrightarrow> (\<forall>c \<in> set s. toLowerChar c = c)"
  by (simp add: lower_cased_def toLowerCase_def map_idI list_eq_iff_nth_eq all_set_conv_all_nth)

lemma lower_cased_Nil [simp]: "lower_cased []"
  by (simp add: lower_cased_iff)

lemma lower_cased_Cons [simp]: "lower_cased (c # s) \<longleftrightarrow> toLowerChar c = c \<and> lower_cased s"
  by (simp add: lower_cased_iff)

lemma lower_cased_append [simp]: "lower_cased (a @ b) \<longleftrightarrow> lower_cased a \<and> lower_cased b"
  by (auto simp: lower_cased_iff)

lemma lower_cased_toLowerCase [simp]: "lower_cased (toLowerCase s)"
  by (simp add: lower_cased_def)

lemma lower_cased_subset: "lower_cased s \<Longrightarrow> set p \<subseteq> set s \<Longrightarrow> lower_cased p"
  by (auto simp: lower_cased_iff)

lemma split_from_chars: "p \<in> set (split_from sep cur s) \<Longrightarrow> set p \<subseteq> set cur \<union> set s"
proof (induction sep cur s rule: split_from.induct)
  case (1 sep cur)
  then show ?case by simp
next
  case (2 sep cur x xs)
  show ?case
  proof (cases "sep \<noteq> [] \<and> prefix sep (x # xs)")
    case True
    then have "p = cur \<or> p \<in> set (split_from sep [] (drop (length sep) (x # xs)))"
      using 2(3) by simp
    then show ?thesis
    proof
      assume "p = cur" then show ?thesis by auto
    next
      assume "p \<in> set (split_from sep [] (drop (length sep) (x # xs)))"
      then have "set p \<subseteq> set [] \<union> set (drop (length sep) (x # xs))"
        using 2(1) True by blast
      moreover have "set (drop (length sep) (x # xs)) \<subseteq> set (x # xs)"
        by (rule set_drop_subset)
      ultimately show ?thesis by auto
    qed
  next
    case False
    then have "p \<in> set (split_from sep (cur @ [x]) xs)" using 2(3) by auto
    then have "set p \<subseteq> set (cur @ [x]) \<union> set xs" using 2(2) False by blast
    then show ?thesis by auto
  qed
qed

lemma str_split_chars: "p \<in> set (str_split s sep) \<Longrightarrow> set p \<subseteq> set s"
proof (cases "sep = []")
  case True
  assume "p \<in> set (str_split s sep)"
  then show ?thesis using True by (auto simp: str_split_def)
next
  case False
  assume "p \<in> set (str_split s sep)"
  then have "p \<in> set (split_from sep [] s)" using False by (simp add: str_split_def)
  then show ?thesis using split_from_chars [of p sep "[]" s] by simp
qed

lemma str_trim_chars: "set (str_trim s) \<subseteq> set s"
proof -
  have "set (dropWhile isWhiteSpace (rev (dropWhile isWhiteSpace s))) \<subseteq> set (rev (dropWhile isWhiteSpace s))"
    by (auto dest: set_dropWhileD)
  also have "\<dots> \<subseteq> set s" by (auto dest: set_dropWhileD)
  finally show ?thesis by (simp add: str_trim_def)
qed

lemma trimmed_part_lower:
  assumes "lower_cased n" "p \<in> set (map str_trim (str_split n sep))"
  shows "lower_cased p"
proof -
  from assms(2) obtain q where "q \<in> set (str_split n sep)" "p = str_trim q" by auto
  then have "set p \<subseteq> set n" using str_split_chars str_trim_chars by blast
  with assms(1) show ?thesis by (rule lower_cased_subset)
qed

lemma separator_lower:
  "toLowerChar CHR ''/'' = CHR ''/''" "toLowerChar CHR '' '' = CHR '' ''"
  "toLowerChar CHR ''-'' = CHR ''-''"
  by (simp_all add: toLowerChar_def)

lemma slash_permutations_lower:
  assumes "lower_cased n" "d \<in> set (slash_permutations n)"
  shows "lower_cased d"
proof (cases "str_includes n ''/''")
  case False
  then show ?thesis using assms(2) by (simp add: slash_permutations_def)
next
  case True
  show ?thesis
  proof (cases "\<exists>p0 p1. map str_trim (str_split n ''/'') = [p0, p1]")
    case False
    then have "slash_permutations n = []"
      using True by (auto simp: slash_permutations_def split: list.splits)
    then show ?thesis using assms(2) by simp
  next
    case ex: True
    then obtain p0 p1 where parts: "map str_trim (str_split n ''/'') = [p0, p1]" by auto
    then have "p0 \<in> set (map str_trim (str_split n ''/''))" "p1 \<in> set (map str_trim (str_split n ''/''))"
      by simp_all
    then have "lower_cased p0" "lower_cased p1"
      using trimmed_part_lower [OF assms(1)] by blast+
    moreover have "d \<in> set (slash_forms p0 p1)"
      using assms(2) True parts by (simp add: slash_permutations_def)
    ultimately show ?thesis
      by (auto simp: slash_forms_def separator_lower)
  qed
qed

lemma and_permutations_lower:
  assumes "lower_cased n" "d \<in> set (and_permutations n)"
  shows "lower_cased d"
proof -
  define sep where "sep = (if str_includes n '' and '' then '' and '' else '' & '')"
  show ?thesis
  proof (cases "\<exists>p0 p1. map str_trim (str_split n sep) = [p0, p1]")
    case False
    then have "and_permutations n = []"
      by (auto simp: and_permutations_def sep_def Let_def split: list.splits)
    then show ?thesis using assms(2) by simp
  next
    case True
    then obtain p0 p1 where parts: "map str_trim (str_split n sep) = [p0, p1]" by auto
    then have "p0 \<in> set (map str_trim (str_split n sep))" "p1 \<in> set (map str_trim (str_split n sep))"
      by simp_all
    then have "lower_cased p0" "lower_cased p1"
      using trimmed_part_lower [OF assms(1)] by blast+
    moreover have "d \<in> set (and_forms p0 p1)"
      using assms(2) parts by (auto simp: and_permutations_def sep_def Let_def split: if_splits)
    ultimately show ?thesis
      by (auto simp: and_forms_def separator_lower)
  qed
qed

lemma permutations_lower:
  assumes "lower_cased n" "d \<in> set (generateCombinationPermutations n)"
  shows "lower_cased d"
  using assms slash_permutations_lower and_permutations_lower
  unfolding set_permutations by blast

lemma terms_for_shape:
  assumes "lower_cased d" "lower_cased dl"
  shows "list_all (\<lambda>t. lower_cased t \<or> t = d @ '' MDI'' \<and> dl = ''inhaler'' \<or>
           t = d @ '' DPI'' \<and> dl = ''handihaler'') (terms_for m dl d)"
  using assms by (simp add: terms_for_def toLowerChar_def)

lemma generateSearchTerms_set:
  "set (generateSearchTerms m) =
     (\<Union>d \<in> set (generateCombinationPermutations (toLowerCase (name m))).
        set (terms_for m (delivery_of m) d))"
  by (simp add: generateSearchTerms_def)

lemma delivery_of_lower: "lower_cased (delivery_of m)"
  by (simp add: delivery_of_def split: option.splits)

lemma variant_terms_eq:
  "variant_terms (formulation m) dl (fullContext m) v = terms_for m dl v"
  by (cases "formulation m")
     (simp_all add: variant_terms_def with_delivery_def delivery_aliases_def formulation_terms_def
        terms_for_def)

lemma variant_terms_fun:
  "variant_terms (formulation m) dl (fullContext m) = terms_for m dl"
  by (rule ext) (rule variant_terms_eq)

section \<open>C5: the search-term generator\<close>

text \<open>
  C5, as amended. The generated list has no duplicates, and every term in it is lower-cased
  except the two alias terms that end in the acronyms \<open>MDI\<close> (delivery method
  \<open>inhaler\<close>) and \<open>DPI\<close> (delivery method \<open>handihaler\<close>), which follow a name
  permutation. The list is the terms of the name variants, variant after variant in the
  order of the expander and step after step within a variant, with its duplicates
  removed, each term standing where it first occurs; no term is left out. Each term is a
  variant of the lower-cased name followed by fixed suffixes and the lower-cased delivery
  method, and the lower-cased name is itself a term: the white space of a term is that of
  the name and of the delivery method, it is not normalised.
\<close>

theorem generateSearchTerms_terms:
  "distinct (generateSearchTerms m) \<and>
   (\<forall>t \<in> set (generateSearchTerms m).
      lower_cased t \<or>
      (\<exists>d \<in> set (generateCombinationPermutations (toLowerCase (name m))).
         t = d @ '' MDI'' \<and> delivery_of m = ''inhaler'' \<or>
         t = d @ '' DPI'' \<and> delivery_of m = ''handihaler'')) \<and>
   generateSearchTerms m =
     first_occurrences
       (concat (map (variant_terms (formulation m)
                       (case deliveryMethod m of None \<Rightarrow> [] | Some d \<Rightarrow> toLowerCase d)
                       (fullContext m))
                  (generateCombinationPermutations (toLowerCase (name m))))) \<and>
   toLowerCase (name m) \<in> set (generateSearchTerms m)"
proof (intro conjI ballI)
  show "distinct (generateSearchTerms m)"
    by (simp add: generateSearchTerms_def)
next
  fix t
  assume "t \<in> set (generateSearchTerms m)"
  then obtain d where d: "d \<in> set (generateCombinationPermutations (toLowerCase (name m)))"
    "t \<in> set (terms_for m (delivery_of m) d)"
    unfolding generateSearchTerms_set by blast
  have "lower_cased d" using d(1) permutations_lower [of "toLowerCase (name m)" d] by simp
  then have "lower_cased t \<or> t = d @ '' MDI'' \<and> delivery_of m = ''inhaler'' \<or>
      t = d @ '' DPI'' \<and> delivery_of m = ''handihaler''"
    using terms_for_shape [of d "delivery_of m" m] delivery_of_lower [of m] d(2)
    unfolding list_all_iff by blast
  with d(1) show "lower_cased t \<or>
      (\<exists>d \<in> set (generateCombinationPermutations (toLowerCase (name m))).
         t = d @ '' MDI'' \<and> delivery_of m = ''inhaler'' \<or>
         t = d @ '' DPI'' \<and> delivery_of m = ''handihaler'')"
    by blast
next
  show "generateSearchTerms m =
     first_occurrences
       (concat (map (variant_terms (formulation m)
                       (case deliveryMethod m of None \<Rightarrow> [] | Some d \<Rightarrow> toLowerCase d)
                       (fullContext m))
                  (generateCombinationPermutations (toLowerCase (name m)))))"
    by (simp only: generateSearchTerms_def Let_def variant_terms_fun delivery_of_def
          new_Set_first_occurrences)
next
  have "toLowerCase (name m) \<in> set (generateCombinationPermutations (toLowerCase (name m)))"
    unfolding set_permutations by simp
  moreover have "d \<in> set (terms_for m dl d)" for dl d
    by (simp add: terms_for_def)
  ultimately show "toLowerCase (name m) \<in> set (generateSearchTerms m)"
    unfolding generateSearchTerms_set by blast
qed

text \<open>
  The theorem at an inhaler mention, for the term \<open>albuterol MDI\<close>, and at a mention of
  tiotropium by Respimat whose context names the device, so that the term
  \<open>tiotropium respimat\<close> is generated twice and stays where it came first.
\<close>

theorem generateSearchTerms_terms_witness:
  "''albuterol MDI'' \<in> set (generateSearchTerms
      \<lparr>name = ''Albuterol'', dosage = [], formulation = IR, deliveryMethod = Some ''Inhaler'',
       fullContext = []\<rparr>) \<and>
   (lower_cased ''albuterol MDI'' \<or>
    (\<exists>d \<in> set (generateCombinationPermutations (toLowerCase (name
         \<lparr>name = ''Albuterol'', dosage = [], formulation = IR,
          deliveryMethod = Some ''Inhaler'', fullContext = []\<rparr>))).
       ''albuterol MDI'' = d @ '' MDI'' \<and>
       delivery_of \<lparr>name = ''Albuterol'', dosage = [], formulation = IR,
          deliveryMethod = Some ''Inhaler'', fullContext = []\<rparr> = ''inhaler'' \<or>
       ''albuterol MDI'' = d @ '' DPI'' \<and>
       delivery_of \<lparr>name = ''Albuterol'', dosage = [], formulation = IR,
          deliveryMethod = Some ''Inhaler'', fullContext = []\<rparr> = ''handihaler'')) \<and>
   generateSearchTerms
      \<lparr>name = ''Tiotropium'', dosage = [], formulation = IR,
       deliveryMethod = Some ''Respimat'', fullContext = ''Tiotropium Respimat 2.5mcg''\<rparr> =
     first_occurrences
       [''tiotropium respimat immediate release'', ''tiotropium respimat ir'',
        ''tiotropium respimat'', ''tiotropium immediate release'', ''tiotropium ir'',
        ''tiotropium respimat'', ''tiotropium''] \<and>
   first_occurrences
       [''tiotropium respimat immediate release'', ''tiotropium respimat ir'',
        ''tiotropium respimat'', ''tiotropium immediate release'', ''tiotropium ir'',
        ''tiotropium respimat'', ''tiotropium''] =
     [''tiotropium respimat immediate release'', ''tiotropium respimat ir'',
      ''tiotropium respimat'', ''tiotropium immediate release'', ''tiotropium ir'',
      ''tiotropium'']"
proof -
  let ?m = "\<lparr>name = ''Albuterol'', dosage = [], formulation = IR,
      deliveryMethod = Some ''Inhaler'', fullContext = []\<rparr>"
  let ?t = "\<lparr>name = ''Tiotropium'', dosage = [], formulation = IR,
      deliveryMethod = Some ''Respimat'', fullContext = ''Tiotropium Respimat 2.5mcg''\<rparr>"
  have mem: "''albuterol MDI'' \<in> set (generateSearchTerms ?m)"
    by code_simp
  have c1: "lower_cased ''albuterol MDI'' \<or>
    (\<exists>d \<in> set (generateCombinationPermutations (toLowerCase (name ?m))).
       ''albuterol MDI'' = d @ '' MDI'' \<and> delivery_of ?m = ''inhaler'' \<or>
       ''albuterol MDI'' = d @ '' DPI'' \<and> delivery_of ?m = ''handihaler'')"
    by (rule bspec [OF conjunct1 [OF conjunct2 [OF generateSearchTerms_terms]] mem])
  have ev: "concat (map (variant_terms (formulation ?t)
                       (case deliveryMethod ?t of None \<Rightarrow> [] | Some d \<Rightarrow> toLowerCase d)
                       (fullContext ?t))
                  (generateCombinationPermutations (toLowerCase (name ?t)))) =
       [''tiotropium respimat immediate release'', ''tiotropium respimat ir'',
        ''tiotropium respimat'', ''tiotropium immediate release'', ''tiotropium ir'',
        ''tiotropium respimat'', ''tiotropium'']"
    by code_simp
  have c2: "generateSearchTerms ?t =
     first_occurrences
       [''tiotropium respimat immediate release'', ''tiotropium respimat ir'',
        ''tiotropium respimat'', ''tiotropium immediate release'', ''tiotropium ir'',
        ''tiotropium respimat'', ''tiotropium'']"
    using generateSearchTerms_terms [of ?t, THEN conjunct2, THEN conjunct2, THEN conjunct1]
    by (simp only: ev)
  have e: "first_occurrences
       [''tiotropium respimat immediate release'', ''tiotropium respimat ir'',
        ''tiotropium respimat'', ''tiotropium immediate release'', ''tiotropium ir'',
        ''tiotropium respimat'', ''tiotropium''] =
     [''tiotropium respimat immediate release'', ''tiotropium respimat ir'',
      ''tiotropium respimat'', ''tiotropium immediate release'', ''tiotropium ir'',
      ''tiotropium'']"
    by code_simp
  show ?thesis
    by (rule conjI [OF mem conjI [OF c1 conjI [OF c2 e]]])
qed

text \<open>
  The claim as first stated fails twice: \<open>albuterol MDI\<close> is generated and is not
  lower-cased, and a name with two spaces in a row is passed on as it is.
\<close>

theorem generateSearchTerms_counterexample:
  "''albuterol MDI'' \<in> set (generateSearchTerms
      \<lparr>name = ''albuterol'', dosage = [], formulation = IR, deliveryMethod = Some ''inhaler'',
       fullContext = []\<rparr>) \<and>
   \<not> lower_cased ''albuterol MDI'' \<and>
   ''a  b'' \<in> set (generateSearchTerms
      \<lparr>name = ''a  b'', dosage = [], formulation = IR, deliveryMethod = None,
       fullContext = []\<rparr>) \<and>
   \<not> whitespace_normalized ''a  b''"
  by code_simp

lemma insort_key_between:
  fixes f :: "'a \<Rightarrow> nat"
  assumes "\<forall>a \<in> set A. f a < f x" "\<forall>b \<in> set B. f x \<le> f b"
  shows "insort_key f x (A @ B) = A @ x # B"
  using assms
proof (induction A)
  case Nil
  then show ?case by (cases B) auto
next
  case (Cons a A)
  then show ?case by auto
qed

lemma sort_key_pharma_rank:
  "sort_key pharma_rank xs = filter isHumanPharma xs @ filter (\<lambda>a. \<not> isHumanPharma a) xs"
proof (induction xs)
  case Nil
  show ?case by simp
next
  case (Cons x xs)
  show ?case
  proof (cases "isHumanPharma x")
    case True
    have "insort_key pharma_rank x ([] @ (filter isHumanPharma xs @ filter (\<lambda>a. \<not> isHumanPharma a) xs))
          = [] @ x # (filter isHumanPharma xs @ filter (\<lambda>a. \<not> isHumanPharma a) xs)"
      by (rule insort_key_between) (auto simp: pharma_rank_def True)
    then show ?thesis using Cons True by simp
  next
    case False
    have "insort_key pharma_rank x (filter isHumanPharma xs @ filter (\<lambda>a. \<not> isHumanPharma a) xs)
          = filter isHumanPharma xs @ x # filter (\<lambda>a. \<not> isHumanPharma a) xs"
      by (rule insort_key_between) (auto simp: pharma_rank_def False)
    then show ?thesis using Cons False by simp
  qed
qed

lemma search_results_eq:
  "search_results items =
     map to_result (take 5 (filter isHumanPharma (filter human_item items) @
                            filter (\<lambda>a. \<not> isHumanPharma a) (filter human_item items)))"
  by (simp add: search_results_def sort_key_pharma_rank)

lemma search_results_length: "length (search_results items) \<le> 5"
  by (simp add: search_results_def)

lemma lower_or_empty_eq: "lower_or_empty v = toLowerCase (or_empty v)"
  by (simp add: lower_or_empty_def or_empty_def toLowerCase_def split: option.splits)

lemma search_results_human:
  assumes "r \<in> set (search_results items)"
  shows "\<not> is_veterinary (lower_or_empty (title r)) (lower_or_empty (labeler r))"
proof -
  from assms obtain item where "item \<in> set (take 5 (sort_key pharma_rank (filter human_item items)))"
    "r = to_result item"
    by (auto simp: search_results_def)
  then have "human_item item" "title r = item_title item" "labeler r = item_labeler item"
    by (auto dest!: in_set_takeD simp: to_result_def)
  then show ?thesis by (simp add: human_item_def lower_or_empty_eq)
qed

lemma searchMedications_cases:
  assumes "searchMedications fetch q w = (Inr rs, w')"
  shows "rs = [] \<or> (\<exists>items. rs = search_results items)"
  using assms
  by (auto simp: searchMedications_def split: prod.splits fetch_response.splits)

lemma str_includes_iff: "str_includes s k \<longleftrightarrow> (\<exists>pre post. s = pre @ k @ post)"
proof (induction s)
  case Nil
  show ?case by auto
next
  case (Cons x xs)
  have "(\<exists>pre post. x # xs = pre @ k @ post) \<longleftrightarrow>
        prefix k (x # xs) \<or> (\<exists>pre post. xs = pre @ k @ post)"
  proof
    assume "\<exists>pre post. x # xs = pre @ k @ post"
    then obtain pre post where h: "x # xs = pre @ k @ post" by blast
    show "prefix k (x # xs) \<or> (\<exists>pre post. xs = pre @ k @ post)"
    proof (cases pre)
      case Nil
      with h show ?thesis by (auto simp: prefix_def)
    next
      case (Cons y ys)
      with h have "xs = ys @ k @ post" by simp
      then show ?thesis by blast
    qed
  next
    assume "prefix k (x # xs) \<or> (\<exists>pre post. xs = pre @ k @ post)"
    then show "\<exists>pre post. x # xs = pre @ k @ post"
    proof
      assume "prefix k (x # xs)"
      then obtain post where "x # xs = [] @ k @ post" by (auto simp: prefix_def)
      then show ?thesis by blast
    next
      assume "\<exists>pre post. xs = pre @ k @ post"
      then obtain pre post where "xs = pre @ k @ post" by blast
      then have "x # xs = (x # pre) @ k @ post" by simp
      then show ?thesis by blast
    qed
  qed
  then show ?case using Cons by simp
qed

lemma str_includes_toLowerCase:
  assumes "str_includes s k"
  shows "str_includes (toLowerCase s) (toLowerCase k)"
proof -
  from assms obtain pre post where "s = pre @ k @ post" unfolding str_includes_iff by blast
  then have "toLowerCase s = toLowerCase pre @ toLowerCase k @ toLowerCase post"
    by (simp add: toLowerCase_def)
  then show ?thesis unfolding str_includes_iff by blast
qed

lemma veterinaryKeywords_lower: "list_all lower_cased veterinaryKeywords"
  by code_simp

lemma not_veterinary_raw:
  assumes "\<not> is_veterinary (lower_or_empty t) (lower_or_empty l)" "k \<in> set veterinaryKeywords"
  shows "\<not> str_includes (lower_or_empty t) k \<and> \<not> str_includes (lower_or_empty l) k \<and>
         \<not> str_includes (or_empty t) k \<and> \<not> str_includes (or_empty l) k"
proof -
  have k: "toLowerCase k = k"
    using veterinaryKeywords_lower assms(2) by (auto simp: list_all_iff lower_cased_def)
  have low: "\<not> str_includes (lower_or_empty t) k" "\<not> str_includes (lower_or_empty l) k"
    using assms by (auto simp: is_veterinary_def list_ex_iff)
  then have "\<not> str_includes (or_empty t) k" "\<not> str_includes (or_empty l) k"
    using str_includes_toLowerCase [of "or_empty t" k] str_includes_toLowerCase [of "or_empty l" k] k
    by (auto simp: lower_or_empty_eq)
  with low show ?thesis by simp
qed

section \<open>C10: what a search returns\<close>

text \<open>
  C10. When \<open>searchMedications\<close> returns, it returns at most five records, so a slice of
  ten is the whole list; no returned record has a veterinary keyword in its title or its
  labeler, lower-cased or as it stands; for a payload with a \<open>data\<close> array the records are
  the first five of the entries that are not veterinary, those of a human pharmaceutical
  labeler first and each group in the order of the payload. The order can differ from the
  payload's: of two entries, a \<open>Teva\<close> entry ranked second is returned first.
\<close>

theorem searchMedications_at_most_five:
  "(searchMedications fetch q w = (Inr rs, w') \<longrightarrow>
      length rs \<le> 5 \<and> take 10 rs = rs \<and>
      (\<forall>r \<in> set rs. \<forall>k \<in> set veterinaryKeywords.
         \<not> str_includes (lower_or_empty (title r)) k \<and>
         \<not> str_includes (lower_or_empty (labeler r)) k \<and>
         \<not> str_includes (or_empty (title r)) k \<and> \<not> str_includes (or_empty (labeler r)) k)) \<and>
   (fst (fetch q w) = Data items \<longrightarrow>
      fst (searchMedications fetch q w) =
        Inr (map to_result
               (take 5 (filter isHumanPharma (filter human_item items) @
                        filter (\<lambda>a. \<not> isHumanPharma a) (filter human_item items))))) \<and>
   search_results
     [\<lparr>item_setid = Some ''1'', item_title = Some ''Metformin Tablets'',
       item_generic_name = None, item_brand_name = None, item_labeler = Some ''Acme Labs''\<rparr>,
      \<lparr>item_setid = Some ''2'', item_title = Some ''Metformin Tablets'',
       item_generic_name = None, item_brand_name = None, item_labeler = Some ''Teva''\<rparr>]
   = [\<lparr>setId = Some ''2'', title = Some ''Metformin Tablets'', genericName = None,
       brandName = None, labeler = Some ''Teva''\<rparr>,
      \<lparr>setId = Some ''1'', title = Some ''Metformin Tablets'', genericName = None,
       brandName = None, labeler = Some ''Acme Labs''\<rparr>]"
proof (intro conjI impI)
  assume h: "searchMedications fetch q w = (Inr rs, w')"
  have len: "length rs \<le> 5"
    using searchMedications_cases [OF h] search_results_length by auto
  then show "length rs \<le> 5" "take 10 rs = rs" by simp_all
  have "\<not> is_veterinary (lower_or_empty (title r)) (lower_or_empty (labeler r))"
    if "r \<in> set rs" for r
    using searchMedications_cases [OF h] that search_results_human by auto
  then show "\<forall>r \<in> set rs. \<forall>k \<in> set veterinaryKeywords.
         \<not> str_includes (lower_or_empty (title r)) k \<and>
         \<not> str_includes (lower_or_empty (labeler r)) k \<and>
         \<not> str_includes (or_empty (title r)) k \<and> \<not> str_includes (or_empty (labeler r)) k"
    using not_veterinary_raw by blast
next
  assume "fst (fetch q w) = Data items"
  then show "fst (searchMedications fetch q w) =
        Inr (map to_result
               (take 5 (filter isHumanPharma (filter human_item items) @
                        filter (\<lambda>a. \<not> isHumanPharma a) (filter human_item items))))"
    by (cases "fetch q w") (simp add: searchMedications_def search_results_eq)
next
  show "search_results
     [\<lparr>item_setid = Some ''1'', item_title = Some ''Metformin Tablets'',
       item_generic_name = None, item_brand_name = None, item_labeler = Some ''Acme Labs''\<rparr>,
      \<lparr>item_setid = Some ''2'', item_title = Some ''Metformin Tablets'',
       item_generic_name = None, item_brand_name = None, item_labeler = Some ''Teva''\<rparr>]
   = [\<lparr>setId = Some ''2'', title = Some ''Metformin Tablets'', genericName = None,
       brandName = None, labeler = Some ''Teva''\<rparr>,
      \<lparr>setId = Some ''1'', title = Some ''Metformin Tablets'', genericName = None,
       brandName = None, labeler = Some ''Acme Labs''\<rparr>]"
    by code_simp
qed

text \<open>The theorem at the stub that answers eight entries, two of them veterinary.\<close>

theorem searchMedications_at_most_five_witness:
  "searchMedications ranked_fetch ''metformin'' () =
     (Inr (map to_result
        [item ''3'' ''Metformin B'' ''Pfizer'', item ''6'' ''Metformin E'' ''Teva'',
         item ''1'' ''Metformin A'' ''Acme'', item ''5'' ''Metformin D'' ''Zed'',
         item ''7'' ''Metformin F'' ''Yoyo'']), ()) \<and>
   fst (ranked_fetch ''metformin'' ()) = Data ranked_items \<and>
   length (map to_result
        [item ''3'' ''Metformin B'' ''Pfizer'', item ''6'' ''Metformin E'' ''Teva'',
         item ''1'' ''Metformin A'' ''Acme'', item ''5'' ''Metformin D'' ''Zed'',
         item ''7'' ''Metformin F'' ''Yoyo'']) \<le> 5 \<and>
   fst (searchMedications ranked_fetch ''metformin'' ()) =
     Inr (map to_result
            (take 5 (filter isHumanPharma (filter human_item ranked_items) @
                     filter (\<lambda>a. \<not> isHumanPharma a) (filter human_item ranked_items))))"
proof -
  let ?rs = "map to_result
        [item ''3'' ''Metformin B'' ''Pfizer'', item ''6'' ''Metformin E'' ''Teva'',
         item ''1'' ''Metformin A'' ''Acme'', item ''5'' ''Metformin D'' ''Zed'',
         item ''7'' ''Metformin F'' ''Yoyo'']"
  have h1: "searchMedications ranked_fetch ''metformin'' () = (Inr ?rs, ())"
    by code_simp
  have h2: "fst (ranked_fetch ''metformin'' ()) = Data ranked_items"
    by (simp add: ranked_fetch_def)
  note T = searchMedications_at_most_five
    [of ranked_fetch "''metformin''" "()" ?rs "()" ranked_items]
  have c1: "length ?rs \<le> 5"
    using mp [OF conjunct1 [OF T] h1] by (rule conjunct1)
  have c2: "fst (searchMedications ranked_fetch ''metformin'' ()) =
     Inr (map to_result
            (take 5 (filter isHumanPharma (filter human_item ranked_items) @
                     filter (\<lambda>a. \<not> isHumanPharma a) (filter human_item ranked_items))))"
    using mp [OF conjunct1 [OF conjunct2 [OF T]] h2] .
  show ?thesis
    by (rule conjI [OF h1 conjI [OF h2 conjI [OF c1 c2]]])
qed

section \<open>What the loops accept\<close>

lemma check_results_find: "fst (check_results m rs) = find (accepts m) rs"
  by (induction rs) (auto simp: accepts_def Let_def split: prod.splits)

lemma relaxed_results_find: "relaxed_results m rs = find (relaxed_ok m) rs"
proof (induction rs)
  case Nil
  show ?case by simp
next
  case (Cons r rs)
  show ?case
  proof (cases "formulation m")
    case IR
    then show ?thesis using Cons
      by (simp add: relaxed_ok_def formulation_conflict_def Let_def)
  next
    case ER
    then show ?thesis using Cons
      by (simp add: relaxed_ok_def formulation_conflict_def Let_def)
  qed
qed

lemma accepts_not_veterinary:
  "accepts m r \<Longrightarrow> \<not> is_veterinary (lower_or_empty (title r)) (lower_or_empty (labeler r))"
  by (simp add: accepts_def isAppropriateMatchWithReasons_def Let_def split: if_splits)

lemma accepts_no_conflict:
  "accepts m r \<Longrightarrow> \<not> formulation_conflict (formulation m) (lower_or_empty (title r))"
  by (cases "formulation m")
     (simp_all add: accepts_def isAppropriateMatchWithReasons_def Let_def formulation_conflict_def
        split: if_splits)

lemma find_SomeD: "find P xs = Some x \<Longrightarrow> P x \<and> x \<in> set xs"
  by (induction xs) (auto split: if_splits)

lemma strict_search_accepts:
  assumes "strict_search fetch m terms st lg w = (st', lg', w')" "bestResult st = None"
    "bestResult st' = Some c"
  shows "accepts m c"
  using assms
proof (induction terms arbitrary: st lg w)
  case Nil
  then show ?case by simp
next
  case (Cons t terms)
  obtain res w1 where sm: "searchMedications fetch t w = (res, w1)" by (cases "searchMedications fetch t w")
  show ?case
  proof (cases res)
    case (Inl e)
    then show ?thesis using Cons.prems sm
      by (auto intro: Cons.IH)
  next
    case (Inr rs)
    obtain best rej where cr: "check_results m (take 3 rs) = (best, rej)"
      by (cases "check_results m (take 3 rs)")
    then have best: "best = find (accepts m) (take 3 rs)"
      using check_results_find [of m "take 3 rs"] by simp
    show ?thesis
    proof (cases best)
      case None
      then show ?thesis using Cons.prems sm Inr cr
        by (auto simp: Let_def intro: Cons.IH)
    next
      case (Some r)
      then have "accepts m r" using best find_SomeD [of "accepts m" "take 3 rs" r] by simp
      then show ?thesis using Cons.prems sm Inr cr Some by (auto simp: Let_def)
    qed
  qed
qed

lemma relaxed_search_ok:
  assumes "relaxed_search fetch m terms lg w = ((Some c, t), lg', w')"
  shows "relaxed_ok m c"
  using assms
proof (induction terms arbitrary: lg w)
  case Nil
  then show ?case by simp
next
  case (Cons q terms)
  obtain res w1 where sm: "searchMedications fetch q w = (res, w1)" by (cases "searchMedications fetch q w")
  show ?case
  proof (cases res)
    case (Inl e)
    then show ?thesis using Cons.prems sm by (auto intro: Cons.IH)
  next
    case (Inr rs)
    show ?thesis
    proof (cases "relaxed_results m (take 10 rs)")
      case None
      then show ?thesis using Cons.prems sm Inr by (auto intro: Cons.IH)
    next
      case (Some r)
      then have "relaxed_ok m r"
        using find_SomeD [of "relaxed_ok m" "take 10 rs" r] by (simp add: relaxed_results_find)
      then show ?thesis using Cons.prems sm Inr Some by auto
    qed
  qed
qed

lemma process_medication_results:
  assumes "process_medication fetch m results lg w = (results', lg', w')"
  shows "results' = results \<or> (\<exists>c. results' = results @ [details_of c] \<and> acceptable m c)"
proof -
  obtain st lg1 w1 where ss: "strict_search fetch m (generateSearchTerms m) initial_state lg w = (st, lg1, w1)"
    by (cases "strict_search fetch m (generateSearchTerms m) initial_state lg w")
  show ?thesis
  proof (cases "bestResult st")
    case (Some c)
    then have "accepts m c" using strict_search_accepts [OF ss] by (simp add: initial_state_def)
    then show ?thesis using assms ss Some by (auto simp: process_medication_def acceptable_def)
  next
    case None
    obtain r t lg2 w2 where rs: "tryRelaxedSearch fetch m lg1 w1 = ((r, t), lg2, w2)"
      by (cases "tryRelaxedSearch fetch m lg1 w1") auto
    show ?thesis
    proof (cases r)
      case None
      then show ?thesis using assms ss \<open>bestResult st = None\<close> rs
        by (auto simp: process_medication_def)
    next
      case (Some c)
      then have "relaxed_ok m c" using rs relaxed_search_ok by (simp add: tryRelaxedSearch_def)
      then show ?thesis using assms ss \<open>bestResult st = None\<close> rs Some
        by (auto simp: process_medication_def acceptable_def)
    qed
  qed
qed

lemma medications_loop_results:
  assumes "medications_loop fetch meds results lg w = (R, L, W)"
  shows "\<exists>new. R = results @ new \<and> length new \<le> length meds \<and>
           (\<forall>d \<in> set new. \<exists>raw \<in> set meds. \<exists>m c.
              typed raw = Inr m \<and> d = details_of c \<and> acceptable m c)"
  using assms
proof (induction meds arbitrary: results lg w)
  case Nil
  then show ?case by simp
next
  case (Cons raw rest)
  show ?case
  proof (cases "typed raw")
    case (Inl e)
    then have "medications_loop fetch rest results (lg @ [processing_error_entry raw]) w = (R, L, W)"
      using Cons.prems by simp
    from Cons.IH [OF this] show ?thesis by auto
  next
    case (Inr m)
    obtain r1 l1 w1 where pm: "process_medication fetch m results lg w = (r1, l1, w1)"
      by (cases "process_medication fetch m results lg w")
    then have rest: "medications_loop fetch rest r1 l1 w1 = (R, L, W)"
      using Cons.prems Inr by simp
    from Cons.IH [OF rest] obtain new where new: "R = r1 @ new" "length new \<le> length rest"
      "\<forall>d \<in> set new. \<exists>raw \<in> set rest. \<exists>m c. typed raw = Inr m \<and> d = details_of c \<and> acceptable m c"
      by blast
    from process_medication_results [OF pm] show ?thesis
    proof
      assume "r1 = results"
      then show ?thesis using new by auto
    next
      assume "\<exists>c. r1 = results @ [details_of c] \<and> acceptable m c"
      then obtain c where c: "r1 = results @ [details_of c]" "acceptable m c" by blast
      have "R = results @ (details_of c # new)" using new(1) c(1) by simp
      moreover have "length (details_of c # new) \<le> length (raw # rest)" using new(2) by simp
      moreover have "\<forall>d \<in> set (details_of c # new). \<exists>raw' \<in> set (raw # rest). \<exists>m c.
              typed raw' = Inr m \<and> d = details_of c \<and> acceptable m c"
        using new(3) c(2) Inr by auto
      ultimately show ?thesis by blast
    qed
  qed
qed

lemma regex_test_word_intro:
  assumes "alt \<in> set alts" "atoms_match alt m" "m \<noteq> []" "isWordChar (hd m)" "isWordChar (last m)"
    "s = pre @ m @ post" "pre = [] \<or> \<not> isWordChar (last pre)" "post = [] \<or> \<not> isWordChar (hd post)"
  shows "regex_test alts s"
proof -
  have "word_boundary (last_or None pre) (m @ post)"
    using word_boundary_before [of m pre post] assms(3,4,7) by simp
  moreover have "word_boundary (last_or (last_or None pre) m) post"
    using word_boundary_after [of m "last_or None pre" post] assms(3,5,8) by simp
  ultimately show ?thesis
    unfolding regex_test_iff using assms(1,2,6) by blast
qed

lemma contains_word_regex_test:
  assumes "contains_word kw s" "alt \<in> set alts"
    "\<And>m. toLowerCase m = toLowerCase kw \<Longrightarrow> atoms_match alt m"
    "kw \<noteq> []" "isWordChar (hd kw)" "isWordChar (last kw)"
  shows "regex_test alts s"
proof -
  from assms(1) obtain pre m post where m: "s = pre @ m @ post" "toLowerCase m = toLowerCase kw"
    "pre = [] \<or> \<not> isWordChar (last pre)" "post = [] \<or> \<not> isWordChar (hd post)"
    unfolding contains_word_def whole_word_occurrence_def by blast
  have "toLowerCase kw \<noteq> []" "isWordChar (hd (toLowerCase kw))" "isWordChar (last (toLowerCase kw))"
    using assms(4-6) by (simp_all add: toLowerCase_def hd_map last_map)
  then have "m \<noteq> [] \<and> isWordChar (hd m) \<and> isWordChar (last m)"
    using lower_ends [OF m(2)] by blast
  then show ?thesis
    using regex_test_word_intro [OF assms(2) assms(3) [OF m(2)] _ _ _ m(1) m(3) m(4)] by blast
qed

lemma atoms_match_any_sep:
  assumes "\<not> isLineTerminator d" "of_char d < (65::nat)"
    "toLowerCase m = toLowerCase (a @ d # b)"
  shows "atoms_match (lits a @ [AnyChar] @ lits b) m"
proof -
  have "atoms_match (lits a @ [Lit d] @ lits b) m"
    using assms(3) atoms_match_lits [of "a @ d # b" m] by (simp add: lits_def)
  then obtain x sep y where m: "m = x @ sep @ y" "atoms_match (lits a) x"
    "atoms_match [Lit d] sep" "atoms_match (lits b) y"
    unfolding atoms_match_append by blast
  from m(3) obtain c where c: "sep = [c]" "ci_eq c d"
    by (cases sep) (auto split: list.splits)
  then have "c = d"
    using assms(2) toLowerChar_not_word [of d c] by (simp add: ci_eq_def toLowerChar_nonword)
  with c assms(1) have "atoms_match [AnyChar] sep" by simp
  with m show ?thesis unfolding atoms_match_append by blast
qed

lemma extended_release_indicator:
  assumes "contains_word ''extended-release'' t"
  shows "regex_test erIndicators t"
proof (rule contains_word_regex_test [OF assms, of "lits ''extended-release''"])
  show "lits ''extended-release'' \<in> set erIndicators" by (simp add: erIndicators_def)
  show "atoms_match (lits ''extended-release'') m" if "toLowerCase m = toLowerCase ''extended-release''" for m
    using that by (simp only: atoms_match_lits)
  show "''extended-release'' \<noteq> []" by simp
  show "isWordChar (hd ''extended-release'')" "isWordChar (last ''extended-release'')"
    by (simp_all add: word_literals)
qed

lemma immediate_release_indicator:
  assumes "contains_word ''immediate release'' t"
  shows "regex_test irIndicators t"
proof (rule contains_word_regex_test [OF assms, of "lits ''immediate'' @ [AnyChar] @ lits ''release''"])
  show "lits ''immediate'' @ [AnyChar] @ lits ''release'' \<in> set irIndicators"
    by (simp add: irIndicators_def)
  show "atoms_match (lits ''immediate'' @ [AnyChar] @ lits ''release'') m"
    if "toLowerCase m = toLowerCase ''immediate release''" for m
    using atoms_match_any_sep [of "CHR '' ''" m "''immediate''" "''release''"] that separator_literals
    by simp
  show "''immediate release'' \<noteq> []" by simp
  show "isWordChar (hd ''immediate release'')" "isWordChar (last ''immediate release'')"
    by (simp_all add: word_literals)
qed

lemma title_details_of [simp]: "title (details_of c) = title c" "labeler (details_of c) = labeler c"
  by (simp_all add: details_of_def)

lemma acceptable_not_veterinary:
  "acceptable m c \<Longrightarrow> \<not> is_veterinary (lower_or_empty (title c)) (lower_or_empty (labeler c))"
  using accepts_not_veterinary by (auto simp: acceptable_def relaxed_ok_def)

lemma acceptable_no_conflict:
  "acceptable m c \<Longrightarrow> \<not> formulation_conflict (formulation m) (lower_or_empty (title c))"
  using accepts_no_conflict by (auto simp: acceptable_def relaxed_ok_def)

lemma relaxed_results_skip:
  "\<not> relaxed_ok m c \<Longrightarrow> relaxed_results m (c # cs) = relaxed_results m cs"
  by (simp add: relaxed_results_find)

lemma searchMultipleMedications_results:
  assumes "d \<in> set (fst (searchMultipleMedications fetch meds w))"
  shows "\<exists>raw \<in> set meds. \<exists>m c. typed raw = Inr m \<and> d = details_of c \<and> acceptable m c"
proof -
  obtain R L W where "medications_loop fetch meds [] [] w = (R, L, W)"
    by (cases "medications_loop fetch meds [] [] w")
  from medications_loop_results [OF this] this assms show ?thesis
    by (auto simp: searchMultipleMedications_def)
qed

lemma process_medication_new:
  assumes "d \<in> set (fst (process_medication fetch m results lg w))"
  shows "d \<in> set results \<or> (\<exists>c. d = details_of c \<and> acceptable m c)"
proof -
  obtain R L W where pm: "process_medication fetch m results lg w = (R, L, W)"
    by (cases "process_medication fetch m results lg w")
  from process_medication_results [OF pm] assms pm show ?thesis by auto
qed

section \<open>C3: formulation conflicts\<close>

text \<open>
  What the two patterns of the matcher do reject. The strict matcher rejects an IR mention
  when the lower-cased title meets the ER pattern of the matcher, and an ER mention when
  it meets the IR pattern; the relaxed pass skips a result with such a conflict and never
  returns one. A title with the whole word \<open>extended-release\<close> meets the ER pattern, one
  with \<open>immediate release\<close> the IR pattern.
\<close>

lemma matcher_patterns_reject:
  "(formulation m = IR \<and> regex_test erIndicators (lower_or_empty (title c)) \<longrightarrow>
      \<not> isMatch (isAppropriateMatchWithReasons m c)) \<and>
   (formulation m = ER \<and> regex_test irIndicators (lower_or_empty (title c)) \<longrightarrow>
      \<not> isMatch (isAppropriateMatchWithReasons m c)) \<and>
   (formulation_conflict (formulation m) (lower_or_empty (title c)) \<longrightarrow>
      relaxed_results m (c # cs) = relaxed_results m cs) \<and>
   (\<forall>r. relaxed_results m cs = Some r \<longrightarrow>
      \<not> formulation_conflict (formulation m) (lower_or_empty (title r))) \<and>
   (contains_word ''extended-release'' t \<longrightarrow> regex_test erIndicators t) \<and>
   (contains_word ''immediate release'' t \<longrightarrow> regex_test irIndicators t)"
proof (intro conjI impI allI)
  assume "formulation m = IR \<and> regex_test erIndicators (lower_or_empty (title c))"
  then have "formulation_conflict (formulation m) (lower_or_empty (title c))"
    by (simp add: formulation_conflict_def)
  then show "\<not> isMatch (isAppropriateMatchWithReasons m c)"
    using accepts_no_conflict [of m c] by (auto simp: accepts_def)
next
  assume "formulation m = ER \<and> regex_test irIndicators (lower_or_empty (title c))"
  then have "formulation_conflict (formulation m) (lower_or_empty (title c))"
    by (simp add: formulation_conflict_def)
  then show "\<not> isMatch (isAppropriateMatchWithReasons m c)"
    using accepts_no_conflict [of m c] by (auto simp: accepts_def)
next
  assume "formulation_conflict (formulation m) (lower_or_empty (title c))"
  then have "\<not> relaxed_ok m c" by (simp add: relaxed_ok_def)
  then show "relaxed_results m (c # cs) = relaxed_results m cs" by (rule relaxed_results_skip)
next
  fix r assume "relaxed_results m cs = Some r"
  then have "relaxed_ok m r"
    using find_SomeD [of "relaxed_ok m" cs r] by (simp add: relaxed_results_find)
  then show "\<not> formulation_conflict (formulation m) (lower_or_empty (title r))"
    by (simp add: relaxed_ok_def)
next
  assume "contains_word ''extended-release'' t"
  then show "regex_test erIndicators t" by (rule extended_release_indicator)
next
  assume "contains_word ''immediate release'' t"
  then show "regex_test irIndicators t" by (rule immediate_release_indicator)
qed

text \<open>
  C3. The claim fails in the code. The ER lexicon has the keyword \<open>long-acting\<close>, and the
  classifier \<open>isExplicitlyER\<close> takes it for an ER cue; the ER pattern of the two matchers
  does not have it. For the IR mention \<open>insulin\<close> and the candidate titled
  \<open>Insulin Long-Acting Injection\<close>: the lower-cased title contains a keyword of the ER
  lexicon as a whole word, the classifier calls the title ER, and yet the strict matcher
  accepts the candidate, the relaxed pass returns it, and a batch of that one mention
  against a label service that answers it resolves the mention to it.
\<close>

theorem long_acting_title_accepted:
  "typed insulin_mention = Inr insulin \<and> formulation insulin = IR \<and>
   title (to_result long_acting_insulin) = Some ''Insulin Long-Acting Injection'' \<and>
   contains_er_keyword (lower_or_empty (title (to_result long_acting_insulin))) \<and>
   isExplicitlyER ''Insulin Long-Acting Injection'' \<and>
   isMatch (isAppropriateMatchWithReasons insulin (to_result long_acting_insulin)) \<and>
   relaxed_results insulin [to_result long_acting_insulin] =
     Some (to_result long_acting_insulin) \<and>
   fst (searchMultipleMedications insulin_fetch [insulin_mention] ()) =
     [details_of (to_result long_acting_insulin)]"
proof -
  have "contains_er_keyword (lower_or_empty (title (to_result long_acting_insulin)))"
    unfolding contains_er_keyword_code by code_simp
  moreover have "typed insulin_mention = Inr insulin" by code_simp
  moreover have "formulation insulin = IR" by code_simp
  moreover have "title (to_result long_acting_insulin) = Some ''Insulin Long-Acting Injection''"
    by code_simp
  moreover have "isExplicitlyER ''Insulin Long-Acting Injection''" by code_simp
  moreover have "isMatch (isAppropriateMatchWithReasons insulin (to_result long_acting_insulin))"
    by code_simp
  moreover have "relaxed_results insulin [to_result long_acting_insulin] =
     Some (to_result long_acting_insulin)"
    by code_simp
  moreover have "fst (searchMultipleMedications insulin_fetch [insulin_mention] ()) =
     [details_of (to_result long_acting_insulin)]"
    by code_simp
  ultimately show ?thesis by blast
qed

section \<open>C6: veterinary products\<close>

text \<open>
  C6. A result whose title or labeler, lower-cased or as it stands, contains a veterinary
  keyword is rejected by the strict matcher, whatever the mention and the rest of the
  result, and skipped by the relaxed pass; no result of a batch has such a keyword in its
  lower-cased title or labeler.
\<close>

theorem veterinary_never_accepted:
  "(k \<in> set veterinaryKeywords \<and>
    (str_includes (lower_or_empty (title c)) k \<or> str_includes (lower_or_empty (labeler c)) k \<or>
     str_includes (or_empty (title c)) k \<or> str_includes (or_empty (labeler c)) k) \<longrightarrow>
      \<not> isMatch (isAppropriateMatchWithReasons m c) \<and>
      relaxed_results m (c # cs) = relaxed_results m cs) \<and>
   (\<forall>d \<in> set (fst (searchMultipleMedications fetch meds w)). \<forall>k' \<in> set veterinaryKeywords.
      \<not> str_includes (lower_or_empty (title d)) k' \<and>
      \<not> str_includes (lower_or_empty (labeler d)) k')"
proof (intro conjI impI ballI)
  assume h: "k \<in> set veterinaryKeywords \<and>
    (str_includes (lower_or_empty (title c)) k \<or> str_includes (lower_or_empty (labeler c)) k \<or>
     str_includes (or_empty (title c)) k \<or> str_includes (or_empty (labeler c)) k)"
  then have vet: "is_veterinary (lower_or_empty (title c)) (lower_or_empty (labeler c))"
    using not_veterinary_raw [of "title c" "labeler c" k] by blast
  then show "\<not> isMatch (isAppropriateMatchWithReasons m c)"
    using accepts_not_veterinary [of m c] by (auto simp: accepts_def)
  from vet have "\<not> relaxed_ok m c" by (simp add: relaxed_ok_def)
  then show "relaxed_results m (c # cs) = relaxed_results m cs" by (rule relaxed_results_skip)
next
  fix d k'
  assume "d \<in> set (fst (searchMultipleMedications fetch meds w))" "k' \<in> set veterinaryKeywords"
  from searchMultipleMedications_results [OF this(1)] obtain m' c' where
    "d = details_of c'" "acceptable m' c'" by blast
  then have "\<not> is_veterinary (lower_or_empty (title d)) (lower_or_empty (labeler d))"
    using acceptable_not_veterinary by simp
  then show "\<not> str_includes (lower_or_empty (title d)) k'"
    "\<not> str_includes (lower_or_empty (labeler d)) k'"
    using \<open>k' \<in> set veterinaryKeywords\<close> by (auto simp: is_veterinary_def list_ex_iff)
qed

text \<open>
  The theorem at a title with the keyword \<open>veterinary\<close>, and at the result of a batch
  against the stub service.
\<close>

theorem veterinary_never_accepted_witness:
  "(''veterinary'' \<in> set veterinaryKeywords \<and>
    (str_includes (lower_or_empty (title (to_result (item ''v'' ''Metformin Veterinary'' ''Acme''))))
       ''veterinary'' \<or>
     str_includes (lower_or_empty (labeler (to_result (item ''v'' ''Metformin Veterinary'' ''Acme''))))
       ''veterinary'' \<or>
     str_includes (or_empty (title (to_result (item ''v'' ''Metformin Veterinary'' ''Acme''))))
       ''veterinary'' \<or>
     str_includes (or_empty (labeler (to_result (item ''v'' ''Metformin Veterinary'' ''Acme''))))
       ''veterinary'')) \<and>
   \<not> isMatch (isAppropriateMatchWithReasons
      \<lparr>name = ''Metformin'', dosage = [], formulation = IR, deliveryMethod = None,
       fullContext = ''Metformin''\<rparr>
      (to_result (item ''v'' ''Metformin Veterinary'' ''Acme''))) \<and>
   details_of (to_result (item ''m-ir'' ''Metformin Hydrochloride Tablets'' ''Acme''))
     \<in> set (fst (searchMultipleMedications pharmacy_fetch [mention ''Metformin'' IR []] ())) \<and>
   \<not> str_includes (lower_or_empty (title
        (details_of (to_result (item ''m-ir'' ''Metformin Hydrochloride Tablets'' ''Acme'')))))
      ''veterinary''"
proof -
  let ?m = "\<lparr>name = ''Metformin'', dosage = [], formulation = IR, deliveryMethod = None,
       fullContext = ''Metformin''\<rparr>"
  let ?c = "to_result (item ''v'' ''Metformin Veterinary'' ''Acme'')"
  let ?d = "details_of (to_result (item ''m-ir'' ''Metformin Hydrochloride Tablets'' ''Acme''))"
  note T = veterinary_never_accepted
    [where m = ?m and c = ?c and k = "''veterinary''" and cs = "[]" and fetch = pharmacy_fetch
       and w = "()" and meds = "[mention ''Metformin'' IR []]"]
  have k: "''veterinary'' \<in> set veterinaryKeywords"
    by code_simp
  have h1: "''veterinary'' \<in> set veterinaryKeywords \<and>
    (str_includes (lower_or_empty (title ?c)) ''veterinary'' \<or>
     str_includes (lower_or_empty (labeler ?c)) ''veterinary'' \<or>
     str_includes (or_empty (title ?c)) ''veterinary'' \<or>
     str_includes (or_empty (labeler ?c)) ''veterinary'')"
    by code_simp
  have c1: "\<not> isMatch (isAppropriateMatchWithReasons ?m ?c)"
    by (rule conjunct1 [OF mp [OF conjunct1 [OF T] h1]])
  have h2: "?d \<in> set (fst (searchMultipleMedications pharmacy_fetch [mention ''Metformin'' IR []] ()))"
    by code_simp
  have c2: "\<not> str_includes (lower_or_empty (title ?d)) ''veterinary''"
    by (rule conjunct1 [OF bspec [OF bspec [OF conjunct2 [OF T] h2] k]])
  show ?thesis
    by (rule conjI [OF h1 conjI [OF c1 conjI [OF h2 c2]]])
qed

lemma searchMedications_traced:
  "searchMedications (traced fetch) q (w, tr) =
     (case fetch q w of (resp, w') \<Rightarrow>
        ((case resp of Failure \<Rightarrow> Inl SearchFailed | _ \<Rightarrow> Inr (candidates_of resp)),
         (w', tr @ [(q, resp)])))"
  by (simp add: searchMedications_def traced_def candidates_of_def
      split: prod.splits fetch_response.splits)

lemma strict_hit_Failure [simp]: "strict_hit m Failure = None"
  by (simp add: strict_hit_def candidates_of_def)

lemma relaxed_hit_Failure [simp]: "relaxed_hit m Failure = None"
  by (simp add: relaxed_hit_def candidates_of_def)

lemma no_hit_Nil [simp]: "no_hit hit []"
  by (simp add: no_hit_def)

lemma no_hit_Cons [simp]: "no_hit hit ((q, r) # tr) \<longleftrightarrow> hit r = None \<and> no_hit hit tr"
  by (simp add: no_hit_def)

lemma hit_last_single: "hit r = Some c \<Longrightarrow> hit_last hit [(q, r)] q c"
  unfolding hit_last_def by (rule exI [of _ "[]"]) simp

lemma hit_last_Cons: "hit r = None \<Longrightarrow> hit_last hit tr q c \<Longrightarrow> hit_last hit ((p, r) # tr) q c"
proof -
  assume r: "hit r = None" and "hit_last hit tr q c"
  then obtain pre x where "tr = pre @ [(q, x)]" "no_hit hit pre" "hit x = Some c"
    unfolding hit_last_def by blast
  then have "(p, r) # tr = ((p, r) # pre) @ [(q, x)] \<and> no_hit hit ((p, r) # pre) \<and> hit x = Some c"
    using r by simp
  then show ?thesis unfolding hit_last_def by blast
qed

lemma log_searchTerm_entries [simp]:
  "log_searchTerm (error_entry m t) = t" "log_searchTerm (term_entry m t rs rej) = t"
  by (simp_all add: error_entry_def term_entry_def)

lemma strict_search_traced:
  assumes "strict_search (traced fetch) m terms st lg (w, tr) = (st', lg', (w', tr'))"
    "bestResult st = None"
  shows "\<exists>new entries. tr' = tr @ new \<and> lg' = lg @ entries \<and>
           map log_searchTerm entries = map fst new \<and> prefix (map fst new) terms \<and>
           (case bestResult st' of
              None \<Rightarrow> map fst new = terms \<and> no_hit (strict_hit m) new
            | Some c \<Rightarrow> \<exists>q. hit_last (strict_hit m) new q c)"
  using assms
proof (induction terms arbitrary: st lg w tr)
  case Nil
  then show ?case by simp
next
  case (Cons t terms)
  obtain resp w1 where f: "fetch t w = (resp, w1)" by (cases "fetch t w")
  let ?tr1 = "tr @ [(t, resp)]"
  have step: "\<exists>new entries. tr' = tr @ new \<and> lg' = lg @ entries \<and>
           map log_searchTerm entries = map fst new \<and> prefix (map fst new) (t # terms) \<and>
           (case bestResult st' of
              None \<Rightarrow> map fst new = t # terms \<and> no_hit (strict_hit m) new
            | Some c \<Rightarrow> \<exists>q. hit_last (strict_hit m) new q c)"
    if rec: "strict_search (traced fetch) m terms st1 (lg @ [e]) (w1, ?tr1) = (st', lg', (w', tr'))"
      and st1: "bestResult st1 = None" and e: "log_searchTerm e = t"
      and nohit: "strict_hit m resp = None" for st1 e
  proof -
    from Cons.IH [OF rec st1] obtain new entries where h: "tr' = ?tr1 @ new"
      "lg' = (lg @ [e]) @ entries" "map log_searchTerm entries = map fst new"
      "prefix (map fst new) terms"
      "case bestResult st' of
              None \<Rightarrow> map fst new = terms \<and> no_hit (strict_hit m) new
            | Some c \<Rightarrow> \<exists>q. hit_last (strict_hit m) new q c"
      by blast
    have "tr' = tr @ ((t, resp) # new)" "lg' = lg @ (e # entries)"
      "map log_searchTerm (e # entries) = map fst ((t, resp) # new)"
      "prefix (map fst ((t, resp) # new)) (t # terms)"
      using h e by simp_all
    moreover have "case bestResult st' of
              None \<Rightarrow> map fst ((t, resp) # new) = t # terms \<and> no_hit (strict_hit m) ((t, resp) # new)
            | Some c \<Rightarrow> \<exists>q. hit_last (strict_hit m) ((t, resp) # new) q c"
      using h(5) nohit by (auto split: option.splits intro: hit_last_Cons)
    ultimately show ?thesis by blast
  qed
  show ?case
  proof (cases "resp = Failure")
    case True
    have "strict_search (traced fetch) m terms
            (st\<lparr>searchErrors := searchErrors st @
                 [''Error searching '' @ dquote @ t @ dquote @ '': '' @ search_error_text]\<rparr>)
            (lg @ [error_entry m t]) (w1, ?tr1) = (st', lg', (w', tr'))"
      using Cons.prems(1) f True by (simp add: searchMedications_traced)
    then show ?thesis
      by (rule step) (simp_all add: Cons.prems(2) True)
  next
    case False
    then have sm: "searchMedications (traced fetch) t (w, tr) = (Inr (candidates_of resp), (w1, ?tr1))"
      using f by (cases resp) (simp_all add: searchMedications_traced)
    obtain best rej where cr: "check_results m (take 3 (candidates_of resp)) = (best, rej)"
      by (cases "check_results m (take 3 (candidates_of resp))")
    then have best: "best = strict_hit m resp"
      using check_results_find [of m "take 3 (candidates_of resp)"] by (simp add: strict_hit_def)
    show ?thesis
    proof (cases best)
      case None
      have "strict_search (traced fetch) m terms
              (st\<lparr>bestResult := bestResult st, bestSearchTerm := bestSearchTerm st,
                  allRejectedReasons := allRejectedReasons st @ rej\<rparr>)
              (lg @ [term_entry m t (candidates_of resp) rej]) (w1, ?tr1) = (st', lg', (w', tr'))"
        using Cons.prems sm cr None by (simp add: Let_def)
      then show ?thesis
        by (rule step) (use Cons.prems(2) None best in simp_all)
    next
      case (Some c)
      then have res: "bestResult st' = Some c" "tr' = tr @ [(t, resp)]"
        "lg' = lg @ [term_entry m t (candidates_of resp) rej]"
        using Cons.prems sm cr by (auto simp: Let_def)
      have "hit_last (strict_hit m) [(t, resp)] t c"
        using Some best by (intro hit_last_single) simp
      then have "tr' = tr @ [(t, resp)] \<and> lg' = lg @ [term_entry m t (candidates_of resp) rej] \<and>
           map log_searchTerm [term_entry m t (candidates_of resp) rej] = map fst [(t, resp)] \<and>
           prefix (map fst [(t, resp)]) (t # terms) \<and>
           (case bestResult st' of
              None \<Rightarrow> map fst [(t, resp)] = t # terms \<and> no_hit (strict_hit m) [(t, resp)]
            | Some c \<Rightarrow> \<exists>q. hit_last (strict_hit m) [(t, resp)] q c)"
        using res by auto
      then show ?thesis by blast
    qed
  qed
qed

lemma relaxed_search_traced:
  assumes "relaxed_search (traced fetch) m terms lg (w, tr) = ((r, t), lg', (w', tr'))"
  shows "\<exists>new. tr' = tr @ new \<and> prefix (map fst new) terms \<and>
           (case r of
              None \<Rightarrow> map fst new = terms \<and> no_hit (relaxed_hit m) new \<and> lg' = lg
            | Some c \<Rightarrow> \<exists>q. hit_last (relaxed_hit m) new q c \<and> lg' = lg @ [relaxed_entry m q c])"
  using assms
proof (induction terms arbitrary: w tr)
  case Nil
  then show ?case by simp
next
  case (Cons q terms)
  obtain resp w1 where f: "fetch q w = (resp, w1)" by (cases "fetch q w")
  let ?tr1 = "tr @ [(q, resp)]"
  have step: ?case
    if rec: "relaxed_search (traced fetch) m terms lg (w1, ?tr1) = ((r, t), lg', (w', tr'))"
      and nohit: "relaxed_hit m resp = None"
  proof -
    from Cons.IH [OF rec] obtain new where h: "tr' = ?tr1 @ new" "prefix (map fst new) terms"
      "case r of
              None \<Rightarrow> map fst new = terms \<and> no_hit (relaxed_hit m) new \<and> lg' = lg
            | Some c \<Rightarrow> \<exists>q. hit_last (relaxed_hit m) new q c \<and> lg' = lg @ [relaxed_entry m q c]"
      by blast
    have "tr' = tr @ ((q, resp) # new)" "prefix (map fst ((q, resp) # new)) (q # terms)"
      using h by simp_all
    moreover have "case r of
              None \<Rightarrow> map fst ((q, resp) # new) = q # terms \<and>
                no_hit (relaxed_hit m) ((q, resp) # new) \<and> lg' = lg
            | Some c \<Rightarrow> \<exists>p. hit_last (relaxed_hit m) ((q, resp) # new) p c \<and>
                lg' = lg @ [relaxed_entry m p c]"
      using h(3) nohit by (auto split: option.splits intro: hit_last_Cons)
    ultimately show ?thesis by blast
  qed
  show ?case
  proof (cases "resp = Failure")
    case True
    have "relaxed_search (traced fetch) m terms lg (w1, ?tr1) = ((r, t), lg', (w', tr'))"
      using Cons.prems f True by (simp add: searchMedications_traced)
    then show ?thesis by (rule step) (simp add: True)
  next
    case False
    then have sm: "searchMedications (traced fetch) q (w, tr) = (Inr (candidates_of resp), (w1, ?tr1))"
      using f by (cases resp) (simp_all add: searchMedications_traced)
    have hit: "relaxed_results m (take 10 (candidates_of resp)) = relaxed_hit m resp"
      by (simp add: relaxed_results_find relaxed_hit_def)
    show ?thesis
    proof (cases "relaxed_hit m resp")
      case None
      have "relaxed_search (traced fetch) m terms lg (w1, ?tr1) = ((r, t), lg', (w', tr'))"
        using Cons.prems sm hit None by simp
      then show ?thesis by (rule step) (rule None)
    next
      case (Some c)
      then have res: "r = Some c" "tr' = tr @ [(q, resp)]" "lg' = lg @ [relaxed_entry m q c]"
        using Cons.prems sm hit by auto
      have "hit_last (relaxed_hit m) [(q, resp)] q c"
        using Some by (rule hit_last_single)
      then have "tr' = tr @ [(q, resp)] \<and> prefix (map fst [(q, resp)]) (q # terms) \<and>
           (case r of
              None \<Rightarrow> map fst [(q, resp)] = q # terms \<and> no_hit (relaxed_hit m) [(q, resp)] \<and> lg' = lg
            | Some c \<Rightarrow> \<exists>p. hit_last (relaxed_hit m) [(q, resp)] p c \<and> lg' = lg @ [relaxed_entry m p c])"
        using res by auto
      then show ?thesis by blast
    qed
  qed
qed

lemma process_medication_traced:
  assumes "process_medication (traced fetch) m results lg (w, tr) = (results', lg', (w', tr'))"
  shows "\<exists>rs lgs trs. results' = results @ rs \<and> lg' = lg @ lgs \<and> tr' = tr @ trs \<and>
           resolution m rs lgs trs"
proof -
  obtain st lg1 w1 tr1 where ss: "strict_search (traced fetch) m (generateSearchTerms m) initial_state
      lg (w, tr) = (st, lg1, (w1, tr1))"
    by (cases "strict_search (traced fetch) m (generateSearchTerms m) initial_state lg (w, tr)") auto
  have "bestResult initial_state = None" by (simp add: initial_state_def)
  from strict_search_traced [OF ss this] obtain strict entries where s: "tr1 = tr @ strict"
    "lg1 = lg @ entries" "map log_searchTerm entries = map fst strict"
    "prefix (map fst strict) (generateSearchTerms m)"
    "case bestResult st of
       None \<Rightarrow> map fst strict = generateSearchTerms m \<and> no_hit (strict_hit m) strict
     | Some c \<Rightarrow> \<exists>q. hit_last (strict_hit m) strict q c"
    by blast
  show ?thesis
  proof (cases "bestResult st")
    case (Some c)
    then obtain q where "hit_last (strict_hit m) strict q c" using s(5) by auto
    then have "strict_resolved m [details_of c] entries strict"
      unfolding strict_resolved_def using s(3,4) by blast
    then have "resolution m [details_of c] entries strict"
      by (simp add: resolution_def)
    moreover have "results' = results @ [details_of c]" "lg' = lg @ entries" "tr' = tr @ strict"
      using assms ss Some s(1,2) by (simp_all add: process_medication_def)
    ultimately show ?thesis by blast
  next
    case None
    then have all: "map fst strict = generateSearchTerms m" "no_hit (strict_hit m) strict"
      using s(5) by simp_all
    obtain r t lg2 w2 tr2 where rs: "tryRelaxedSearch (traced fetch) m lg1 (w1, tr1) = ((r, t), lg2, (w2, tr2))"
      by (cases "tryRelaxedSearch (traced fetch) m lg1 (w1, tr1)") auto
    from relaxed_search_traced [OF rs [unfolded tryRelaxedSearch_def]] obtain relaxed where
      x: "tr2 = tr1 @ relaxed" "prefix (map fst relaxed) (relaxedSearchTerms m)"
      "case r of
         None \<Rightarrow> map fst relaxed = relaxedSearchTerms m \<and> no_hit (relaxed_hit m) relaxed \<and> lg2 = lg1
       | Some c \<Rightarrow> \<exists>q. hit_last (relaxed_hit m) relaxed q c \<and> lg2 = lg1 @ [relaxed_entry m q c]"
      by blast
    show ?thesis
    proof (cases r)
      case (Some c)
      then obtain q where q: "hit_last (relaxed_hit m) relaxed q c" "lg2 = lg1 @ [relaxed_entry m q c]"
        using x(3) by auto
      have "relaxed_resolved m [details_of c] (entries @ [relaxed_entry m q c]) (strict @ relaxed)"
        unfolding relaxed_resolved_def using s(3) x(2) all q(1) by blast
      then have "resolution m [details_of c] (entries @ [relaxed_entry m q c]) (strict @ relaxed)"
        by (simp add: resolution_def)
      moreover have "results' = results @ [details_of c]"
        "lg' = lg @ entries @ [relaxed_entry m q c]" "tr' = tr @ strict @ relaxed"
        using assms ss None rs Some s(1,2) x(1) q(2) by (simp_all add: process_medication_def)
      ultimately show ?thesis by blast
    next
      case rNone: None
      then have y: "map fst relaxed = relaxedSearchTerms m" "no_hit (relaxed_hit m) relaxed" "lg2 = lg1"
        using x(3) by simp_all
      have "unresolved m [] (entries @ [failure_entry m st]) (strict @ relaxed)"
        unfolding unresolved_def using s(3) all y(1,2) by blast
      then have "resolution m [] (entries @ [failure_entry m st]) (strict @ relaxed)"
        by (simp add: resolution_def)
      moreover have "results' = results @ []"
        "lg' = lg @ entries @ [failure_entry m st]" "tr' = tr @ strict @ relaxed"
        using assms ss None rs rNone s(1,2) x(1) y(3) by (simp_all add: process_medication_def)
      ultimately show ?thesis by blast
    qed
  qed
qed

lemma medications_loop_traced:
  assumes "medications_loop (traced fetch) meds results lg (w, tr) = (R, L, (W, TR))"
  shows "\<exists>segs. list_all2 mention_outcome meds segs \<and>
           R = results @ concat (map fst segs) \<and>
           L = lg @ concat (map (\<lambda>s. fst (snd s)) segs) \<and>
           TR = tr @ concat (map (\<lambda>s. snd (snd s)) segs)"
  using assms
proof (induction meds arbitrary: results lg w tr)
  case Nil
  then show ?case by simp
next
  case (Cons raw rest)
  have step: ?case
    if rec: "medications_loop (traced fetch) rest (results @ rs) (lg @ lgs) (w1, tr @ trs) = (R, L, (W, TR))"
      and seg: "mention_outcome raw (rs, lgs, trs)" for rs lgs trs w1
  proof -
    from Cons.IH [OF rec] obtain segs where h: "list_all2 mention_outcome rest segs"
      "R = (results @ rs) @ concat (map fst segs)"
      "L = (lg @ lgs) @ concat (map (\<lambda>s. fst (snd s)) segs)"
      "TR = (tr @ trs) @ concat (map (\<lambda>s. snd (snd s)) segs)"
      by blast
    have "list_all2 mention_outcome (raw # rest) ((rs, lgs, trs) # segs)"
      "R = results @ concat (map fst ((rs, lgs, trs) # segs))"
      "L = lg @ concat (map (\<lambda>s. fst (snd s)) ((rs, lgs, trs) # segs))"
      "TR = tr @ concat (map (\<lambda>s. snd (snd s)) ((rs, lgs, trs) # segs))"
      using h seg by simp_all
    then show ?thesis by blast
  qed
  show ?case
  proof (cases "typed raw")
    case (Inl e)
    have "medications_loop (traced fetch) rest (results @ []) (lg @ [processing_error_entry raw])
            (w, tr @ []) = (R, L, (W, TR))"
      using Cons.prems Inl by simp
    then show ?thesis by (rule step) (simp add: mention_outcome_def Inl)
  next
    case (Inr m)
    obtain r1 l1 w1 tr1 where pm: "process_medication (traced fetch) m results lg (w, tr) = (r1, l1, (w1, tr1))"
      by (cases "process_medication (traced fetch) m results lg (w, tr)") auto
    from process_medication_traced [OF pm] obtain rs lgs trs where
      p: "r1 = results @ rs" "l1 = lg @ lgs" "tr1 = tr @ trs" "resolution m rs lgs trs"
      by blast
    have "medications_loop (traced fetch) rest (results @ rs) (lg @ lgs) (w1, tr @ trs) = (R, L, (W, TR))"
      using Cons.prems Inr pm p by simp
    then show ?thesis by (rule step) (simp add: mention_outcome_def Inr p(4))
  qed
qed

section \<open>Recording the queries changes nothing\<close>

lemma searchMedications_untraced:
  "searchMedications (traced fetch) q (w, tr) =
     (fst (searchMedications fetch q w),
      (snd (searchMedications fetch q w), tr @ [(q, fst (fetch q w))]))"
  by (simp add: searchMedications_def traced_def split: prod.splits fetch_response.splits)

lemma strict_search_untraced:
  "\<exists>tr'. strict_search (traced fetch) m terms st lg (w, tr) =
     (fst (strict_search fetch m terms st lg w), fst (snd (strict_search fetch m terms st lg w)),
      (snd (snd (strict_search fetch m terms st lg w)), tr'))"
proof (induction terms arbitrary: st lg w tr)
  case Nil
  show ?case by simp
next
  case (Cons q terms)
  obtain res w' where sm: "searchMedications fetch q w = (res, w')"
    by (cases "searchMedications fetch q w")
  then have smt: "searchMedications (traced fetch) q (w, tr) = (res, (w', tr @ [(q, fst (fetch q w))]))"
    by (simp add: searchMedications_untraced)
  show ?case
  proof (cases res)
    case (Inl e)
    then show ?thesis using sm smt Cons.IH by simp
  next
    case (Inr rs)
    obtain best rej where cr: "check_results m (take 3 rs) = (best, rej)"
      by (cases "check_results m (take 3 rs)")
    show ?thesis
    proof (cases best)
      case None
      then show ?thesis using sm smt Inr cr Cons.IH by (simp add: Let_def)
    next
      case (Some c)
      then show ?thesis using sm smt Inr cr by (simp add: Let_def)
    qed
  qed
qed

lemma relaxed_search_untraced:
  "\<exists>tr'. relaxed_search (traced fetch) m terms lg (w, tr) =
     (fst (relaxed_search fetch m terms lg w), fst (snd (relaxed_search fetch m terms lg w)),
      (snd (snd (relaxed_search fetch m terms lg w)), tr'))"
proof (induction terms arbitrary: lg w tr)
  case Nil
  show ?case by simp
next
  case (Cons q terms)
  obtain res w' where sm: "searchMedications fetch q w = (res, w')"
    by (cases "searchMedications fetch q w")
  then have smt: "searchMedications (traced fetch) q (w, tr) = (res, (w', tr @ [(q, fst (fetch q w))]))"
    by (simp add: searchMedications_untraced)
  show ?case
  proof (cases res)
    case (Inl e)
    then show ?thesis using sm smt Cons.IH by simp
  next
    case (Inr rs)
    show ?thesis
    proof (cases "relaxed_results m (take 10 rs)")
      case None
      then show ?thesis using sm smt Inr Cons.IH by simp
    next
      case (Some c)
      then show ?thesis using sm smt Inr by simp
    qed
  qed
qed

lemma process_medication_untraced:
  "\<exists>tr'. process_medication (traced fetch) m results lg (w, tr) =
     (fst (process_medication fetch m results lg w),
      fst (snd (process_medication fetch m results lg w)),
      (snd (snd (process_medication fetch m results lg w)), tr'))"
proof -
  obtain st l1 w1 where ss: "strict_search fetch m (generateSearchTerms m) initial_state lg w = (st, l1, w1)"
    by (cases "strict_search fetch m (generateSearchTerms m) initial_state lg w")
  with strict_search_untraced [of fetch m "generateSearchTerms m" initial_state lg w tr]
  obtain tr1 where sst: "strict_search (traced fetch) m (generateSearchTerms m) initial_state lg (w, tr) =
      (st, l1, (w1, tr1))"
    by auto
  show ?thesis
  proof (cases "bestResult st")
    case (Some r)
    then show ?thesis using ss sst by (simp add: process_medication_def)
  next
    case None
    obtain b t l2 w2 where rs: "relaxed_search fetch m (relaxedSearchTerms m) l1 w1 = ((b, t), l2, w2)"
      by (cases "relaxed_search fetch m (relaxedSearchTerms m) l1 w1") auto
    with relaxed_search_untraced [of fetch m "relaxedSearchTerms m" l1 w1 tr1]
    obtain tr2 where rst: "relaxed_search (traced fetch) m (relaxedSearchTerms m) l1 (w1, tr1) =
        ((b, t), l2, (w2, tr2))"
      by auto
    show ?thesis using ss sst None rs rst
      by (cases b) (simp_all add: process_medication_def tryRelaxedSearch_def)
  qed
qed

lemma medications_loop_untraced:
  "\<exists>tr'. medications_loop (traced fetch) meds results lg (w, tr) =
     (fst (medications_loop fetch meds results lg w),
      fst (snd (medications_loop fetch meds results lg w)),
      (snd (snd (medications_loop fetch meds results lg w)), tr'))"
proof (induction meds arbitrary: results lg w tr)
  case Nil
  show ?case by simp
next
  case (Cons raw rest)
  show ?case
  proof (cases "typed raw")
    case (Inl e)
    then show ?thesis using Cons.IH by simp
  next
    case (Inr m)
    obtain r1 l1 w1 where pm: "process_medication fetch m results lg w = (r1, l1, w1)"
      by (cases "process_medication fetch m results lg w")
    with process_medication_untraced [of fetch m results lg w tr]
    obtain tr1 where pmt: "process_medication (traced fetch) m results lg (w, tr) = (r1, l1, (w1, tr1))"
      by auto
    show ?thesis using Inr pm pmt Cons.IH by simp
  qed
qed

lemma searchMultipleMedications_untraced:
  "fst (searchMultipleMedications (traced fetch) meds (w, [])) =
     fst (searchMultipleMedications fetch meds w)"
  using medications_loop_untraced [of fetch meds "[]" "[]" w "[]"]
  by (auto simp: searchMultipleMedications_def)

lemma entry_of_details_of: "entry_of c (details_of c)"
  by (simp add: entry_of_def details_of_def)

lemma resolution_first_accept:
  assumes "typed raw = Inr m" "resolution m rs lgs trs"
  shows "first_accept raw (rs, trs)"
proof -
  from assms(2) consider "strict_resolved m rs lgs trs" | "relaxed_resolved m rs lgs trs"
    | "unresolved m rs lgs trs"
    unfolding resolution_def by blast
  then have "\<exists>strict relaxed. trs = strict @ relaxed \<and>
                ((\<exists>q c e. prefix (map fst strict) (generateSearchTerms m) \<and>
                    hit_last (strict_hit m) strict q c \<and> relaxed = [] \<and>
                    entry_of c e \<and> rs = [e]) \<or>
                 (\<exists>q c e. map fst strict = generateSearchTerms m \<and>
                    no_hit (strict_hit m) strict \<and>
                    prefix (map fst relaxed) (relaxedSearchTerms m) \<and>
                    hit_last (relaxed_hit m) relaxed q c \<and> entry_of c e \<and> rs = [e]) \<or>
                 (map fst strict = generateSearchTerms m \<and> no_hit (strict_hit m) strict \<and>
                  map fst relaxed = relaxedSearchTerms m \<and>
                  no_hit (relaxed_hit m) relaxed \<and> rs = []))"
  proof cases
    case 1
    then obtain q c where h: "hit_last (strict_hit m) trs q c"
      "prefix (map fst trs) (generateSearchTerms m)" "rs = [details_of c]"
      unfolding strict_resolved_def by blast
    have "trs = trs @ []" by simp
    with h entry_of_details_of [of c] show ?thesis by blast
  next
    case 2
    then obtain strict relaxed q c where h: "trs = strict @ relaxed"
      "map fst strict = generateSearchTerms m" "no_hit (strict_hit m) strict"
      "prefix (map fst relaxed) (relaxedSearchTerms m)"
      "hit_last (relaxed_hit m) relaxed q c" "rs = [details_of c]"
      unfolding relaxed_resolved_def by blast
    with entry_of_details_of [of c] show ?thesis by blast
  next
    case 3
    then obtain strict relaxed where "trs = strict @ relaxed"
      "map fst strict = generateSearchTerms m" "no_hit (strict_hit m) strict"
      "map fst relaxed = relaxedSearchTerms m" "no_hit (relaxed_hit m) relaxed" "rs = []"
      unfolding unresolved_def by blast
    then show ?thesis by blast
  qed
  then show ?thesis using assms(1) by (simp add: first_accept_def)
qed

lemma mention_outcome_first_accept:
  "mention_outcome raw seg \<Longrightarrow> first_accept raw (fst seg, snd (snd seg))"
proof (cases "typed raw")
  case (Inl e)
  assume "mention_outcome raw seg"
  then show ?thesis using Inl by (auto simp: mention_outcome_def first_accept_def split: prod.splits)
next
  case (Inr m)
  assume "mention_outcome raw seg"
  then have "resolution m (fst seg) (fst (snd seg)) (snd (snd seg))"
    using Inr by (auto simp: mention_outcome_def split: prod.splits)
  with Inr show ?thesis by (rule resolution_first_accept)
qed

lemma batch_first_accept:
  "\<exists>segs. list_all2 first_accept meds segs \<and>
      fst (searchMultipleMedications fetch meds w) = concat (map fst segs) \<and>
      snd (snd (snd (searchMultipleMedications (traced fetch) meds (w, [])))) =
        concat (map snd segs)"
proof -
  obtain R L W TR where ml: "medications_loop (traced fetch) meds [] [] (w, []) = (R, L, (W, TR))"
    by (cases "medications_loop (traced fetch) meds [] [] (w, [])") auto
  from medications_loop_traced [OF ml] obtain segs where
    h: "list_all2 mention_outcome meds segs" "R = concat (map fst segs)"
       "TR = concat (map (\<lambda>s. snd (snd s)) segs)"
    by auto
  let ?segs = "map (\<lambda>s. (fst s, snd (snd s))) segs"
  have "list_all2 first_accept meds ?segs"
    using h(1) mention_outcome_first_accept
    by (auto simp: list_all2_map2 elim: list_all2_mono)
  moreover have "fst (searchMultipleMedications fetch meds w) = concat (map fst ?segs)"
    using searchMultipleMedications_untraced [of fetch meds w] ml h(2)
    by (simp add: searchMultipleMedications_def comp_def)
  moreover have "snd (snd (snd (searchMultipleMedications (traced fetch) meds (w, [])))) =
        concat (map snd ?segs)"
    using ml h(3) by (simp add: searchMultipleMedications_def comp_def)
  ultimately show ?thesis by blast
qed

section \<open>C7: the first accepted candidate wins\<close>

text \<open>
  C7. The resolution of one mention, run against a collaborator that records its queries,
  adds at most one entry to the results, and the record shows where it stopped. Either the
  queries are the generated terms up to and including the first whose top three results
  hold an acceptable one, no relaxed query follows, and the entry added is made of the
  first acceptable result of that answer. Or every generated term was queried without an
  acceptable result, the relaxed queries are the relaxed terms up to and including the
  first whose top ten hold a result the relaxed pass accepts, and the entry added is made
  of the first such result. Or both passes ran through all their terms and nothing is
  added. A batch returns at most one entry for each mention. More precisely, the results
  of a batch and the record of its queries fall into one stretch for each mention, in the
  order of the mentions, and each stretch obeys the rule above: its results are empty or
  the one entry of the first accepted candidate, with the candidate's five fields and its
  generic name as active ingredient, and its queries end at the term that gave that
  candidate. Recording the queries does not change the results.
\<close>

theorem first_accepted_candidate_wins:
  "(\<exists>strict relaxed.
      snd (snd (snd (process_medication (traced fetch) m results lg (w, tr)))) =
        tr @ strict @ relaxed \<and>
      prefix (map fst strict) (generateSearchTerms m) \<and>
      prefix (map fst relaxed) (relaxedSearchTerms m) \<and>
      ((\<exists>q c. hit_last (strict_hit m) strict q c \<and> relaxed = [] \<and>
          fst (process_medication (traced fetch) m results lg (w, tr)) =
            results @ [details_of c]) \<or>
       (\<exists>q c. map fst strict = generateSearchTerms m \<and> no_hit (strict_hit m) strict \<and>
          hit_last (relaxed_hit m) relaxed q c \<and>
          fst (process_medication (traced fetch) m results lg (w, tr)) =
            results @ [details_of c]) \<or>
       (map fst strict = generateSearchTerms m \<and> no_hit (strict_hit m) strict \<and>
        map fst relaxed = relaxedSearchTerms m \<and> no_hit (relaxed_hit m) relaxed \<and>
        fst (process_medication (traced fetch) m results lg (w, tr)) = results))) \<and>
   length (fst (searchMultipleMedications fetch' meds w')) \<le> length meds \<and>
   (\<exists>segs. list_all2 first_accept meds segs \<and>
      fst (searchMultipleMedications fetch' meds w') = concat (map fst segs) \<and>
      snd (snd (snd (searchMultipleMedications (traced fetch') meds (w', [])))) =
        concat (map snd segs)) \<and>
   fst (searchMultipleMedications (traced fetch') meds (w', [])) =
     fst (searchMultipleMedications fetch' meds w')"
proof (intro conjI)
  obtain R L W TR where pm: "process_medication (traced fetch) m results lg (w, tr) = (R, L, (W, TR))"
    by (cases "process_medication (traced fetch) m results lg (w, tr)") auto
  from process_medication_traced [OF pm] obtain rs lgs trs where
    h: "R = results @ rs" "TR = tr @ trs" "resolution m rs lgs trs"
    by blast
  let ?goal = "\<lambda>strict relaxed.
      TR = tr @ strict @ relaxed \<and>
      prefix (map fst strict) (generateSearchTerms m) \<and>
      prefix (map fst relaxed) (relaxedSearchTerms m) \<and>
      ((\<exists>q c. hit_last (strict_hit m) strict q c \<and> relaxed = [] \<and> R = results @ [details_of c]) \<or>
       (\<exists>q c. map fst strict = generateSearchTerms m \<and> no_hit (strict_hit m) strict \<and>
          hit_last (relaxed_hit m) relaxed q c \<and> R = results @ [details_of c]) \<or>
       (map fst strict = generateSearchTerms m \<and> no_hit (strict_hit m) strict \<and>
        map fst relaxed = relaxedSearchTerms m \<and> no_hit (relaxed_hit m) relaxed \<and> R = results))"
  from h(3) consider "strict_resolved m rs lgs trs" | "relaxed_resolved m rs lgs trs"
    | "unresolved m rs lgs trs"
    unfolding resolution_def by blast
  then have "\<exists>strict relaxed. ?goal strict relaxed"
  proof cases
    case 1
    then obtain q c where "hit_last (strict_hit m) trs q c"
      "prefix (map fst trs) (generateSearchTerms m)" "rs = [details_of c]"
      unfolding strict_resolved_def by blast
    then have "?goal trs []" using h(1,2) by auto
    then show ?thesis by blast
  next
    case 2
    then obtain strict relaxed q c where "trs = strict @ relaxed"
      "map fst strict = generateSearchTerms m" "no_hit (strict_hit m) strict"
      "prefix (map fst relaxed) (relaxedSearchTerms m)"
      "hit_last (relaxed_hit m) relaxed q c" "rs = [details_of c]"
      unfolding relaxed_resolved_def by blast
    then have "?goal strict relaxed" using h(1,2) by auto
    then show ?thesis by blast
  next
    case 3
    then obtain strict relaxed where "trs = strict @ relaxed"
      "map fst strict = generateSearchTerms m" "no_hit (strict_hit m) strict"
      "map fst relaxed = relaxedSearchTerms m" "no_hit (relaxed_hit m) relaxed" "rs = []"
      unfolding unresolved_def by blast
    then have "?goal strict relaxed" using h(1,2) by auto
    then show ?thesis by blast
  qed
  then show "\<exists>strict relaxed.
      snd (snd (snd (process_medication (traced fetch) m results lg (w, tr)))) =
        tr @ strict @ relaxed \<and>
      prefix (map fst strict) (generateSearchTerms m) \<and>
      prefix (map fst relaxed) (relaxedSearchTerms m) \<and>
      ((\<exists>q c. hit_last (strict_hit m) strict q c \<and> relaxed = [] \<and>
          fst (process_medication (traced fetch) m results lg (w, tr)) =
            results @ [details_of c]) \<or>
       (\<exists>q c. map fst strict = generateSearchTerms m \<and> no_hit (strict_hit m) strict \<and>
          hit_last (relaxed_hit m) relaxed q c \<and>
          fst (process_medication (traced fetch) m results lg (w, tr)) =
            results @ [details_of c]) \<or>
       (map fst strict = generateSearchTerms m \<and> no_hit (strict_hit m) strict \<and>
        map fst relaxed = relaxedSearchTerms m \<and> no_hit (relaxed_hit m) relaxed \<and>
        fst (process_medication (traced fetch) m results lg (w, tr)) = results))"
    using pm by simp
next
  obtain R L W where ml: "medications_loop fetch' meds [] [] w' = (R, L, W)"
    by (cases "medications_loop fetch' meds [] [] w'")
  from medications_loop_results [OF ml] ml
  show "length (fst (searchMultipleMedications fetch' meds w')) \<le> length meds"
    by (auto simp: searchMultipleMedications_def)
next
  show "\<exists>segs. list_all2 first_accept meds segs \<and>
      fst (searchMultipleMedications fetch' meds w') = concat (map fst segs) \<and>
      snd (snd (snd (searchMultipleMedications (traced fetch') meds (w', [])))) =
        concat (map snd segs)"
    by (rule batch_first_accept)
next
  show "fst (searchMultipleMedications (traced fetch') meds (w', [])) =
     fst (searchMultipleMedications fetch' meds w')"
    by (rule searchMultipleMedications_untraced)
qed

text \<open>
  The theorem at a mention of tiotropium by HandiHaler against the stub service: the eight
  generated terms are queried, the capsule the last of them returns is rejected by the
  strict matcher, and the one relaxed query resolves the mention to it. And at a batch of
  three mentions: the third query for metformin answers two candidates, the strict
  matcher rejects the extended-release one and accepts the other, and no further term is
  queried for metformin; every query for warfarin fails; the fifth term for lisinopril
  gives its entry.
\<close>

theorem first_accepted_candidate_wins_witness:
  "map fst (snd (snd (snd (process_medication (traced pharmacy_fetch) tiotropium [] [] ((), []))))) =
     [''tiotropium handihaler immediate release'', ''tiotropium handihaler ir'',
      ''tiotropium handihaler'', ''tiotropium dry powder inhaler'', ''tiotropium DPI'',
      ''tiotropium immediate release'', ''tiotropium ir'', ''tiotropium'', ''tiotropium''] \<and>
   fst (process_medication (traced pharmacy_fetch) tiotropium [] [] ((), [])) =
     [details_of (to_result (item ''t-1'' ''Tiotropium Bromide Capsule'' ''Acme''))] \<and>
   map fst (snd (snd (snd (searchMultipleMedications (traced pharmacy_fetch)
      [mention ''Metformin'' IR [], mention ''Warfarin'' IR [], mention ''Lisinopril'' IR ''tablet'']
      ((), []))))) =
     [''metformin immediate release'', ''metformin ir'', ''metformin'',
      ''warfarin immediate release'', ''warfarin ir'', ''warfarin'', ''warfarin'',
      ''lisinopril tablet immediate release'', ''lisinopril tablet ir'', ''lisinopril tablet'',
      ''lisinopril immediate release'', ''lisinopril ir''] \<and>
   fst (searchMultipleMedications pharmacy_fetch
      [mention ''Metformin'' IR [], mention ''Warfarin'' IR [], mention ''Lisinopril'' IR ''tablet'']
      ()) =
     [\<lparr>setId = Some ''m-ir'', title = Some ''Metformin Hydrochloride Tablets'',
       genericName = None, brandName = None, labeler = Some ''Acme'', activeIngredients = []\<rparr>,
      \<lparr>setId = Some ''l-1'', title = Some ''Lisinopril Tablets'',
       genericName = None, brandName = None, labeler = Some ''Acme'', activeIngredients = []\<rparr>] \<and>
   (\<exists>strict relaxed.
      snd (snd (snd (process_medication (traced pharmacy_fetch) tiotropium [] [] ((), [])))) =
        [] @ strict @ relaxed \<and>
      prefix (map fst strict) (generateSearchTerms tiotropium) \<and>
      prefix (map fst relaxed) (relaxedSearchTerms tiotropium) \<and>
      ((\<exists>q c. hit_last (strict_hit tiotropium) strict q c \<and> relaxed = [] \<and>
          fst (process_medication (traced pharmacy_fetch) tiotropium [] [] ((), [])) =
            [] @ [details_of c]) \<or>
       (\<exists>q c. map fst strict = generateSearchTerms tiotropium \<and>
          no_hit (strict_hit tiotropium) strict \<and>
          hit_last (relaxed_hit tiotropium) relaxed q c \<and>
          fst (process_medication (traced pharmacy_fetch) tiotropium [] [] ((), [])) =
            [] @ [details_of c]) \<or>
       (map fst strict = generateSearchTerms tiotropium \<and>
        no_hit (strict_hit tiotropium) strict \<and>
        map fst relaxed = relaxedSearchTerms tiotropium \<and>
        no_hit (relaxed_hit tiotropium) relaxed \<and>
        fst (process_medication (traced pharmacy_fetch) tiotropium [] [] ((), [])) = []))) \<and>
   length (fst (searchMultipleMedications pharmacy_fetch
      [mention ''Metformin'' IR [], mention ''Warfarin'' IR [], mention ''Lisinopril'' IR ''tablet'']
      ())) \<le> length
      [mention ''Metformin'' IR [], mention ''Warfarin'' IR [], mention ''Lisinopril'' IR ''tablet''] \<and>
   (\<exists>segs. list_all2 first_accept
        [mention ''Metformin'' IR [], mention ''Warfarin'' IR [], mention ''Lisinopril'' IR ''tablet'']
        segs \<and>
      fst (searchMultipleMedications pharmacy_fetch
        [mention ''Metformin'' IR [], mention ''Warfarin'' IR [], mention ''Lisinopril'' IR ''tablet'']
        ()) = concat (map fst segs) \<and>
      snd (snd (snd (searchMultipleMedications (traced pharmacy_fetch)
        [mention ''Metformin'' IR [], mention ''Warfarin'' IR [], mention ''Lisinopril'' IR ''tablet'']
        ((), [])))) = concat (map snd segs)) \<and>
   fst (searchMultipleMedications (traced pharmacy_fetch)
      [mention ''Metformin'' IR [], mention ''Warfarin'' IR [], mention ''Lisinopril'' IR ''tablet'']
      ((), [])) =
     fst (searchMultipleMedications pharmacy_fetch
      [mention ''Metformin'' IR [], mention ''Warfarin'' IR [], mention ''Lisinopril'' IR ''tablet'']
      ())"
proof -
  have e1: "map fst (snd (snd (snd (process_medication (traced pharmacy_fetch) tiotropium [] [] ((), []))))) =
     [''tiotropium handihaler immediate release'', ''tiotropium handihaler ir'',
      ''tiotropium handihaler'', ''tiotropium dry powder inhaler'', ''tiotropium DPI'',
      ''tiotropium immediate release'', ''tiotropium ir'', ''tiotropium'', ''tiotropium'']"
    by code_simp
  have e2: "fst (process_medication (traced pharmacy_fetch) tiotropium [] [] ((), [])) =
     [details_of (to_result (item ''t-1'' ''Tiotropium Bromide Capsule'' ''Acme''))]"
    by code_simp
  have e3: "map fst (snd (snd (snd (searchMultipleMedications (traced pharmacy_fetch)
      [mention ''Metformin'' IR [], mention ''Warfarin'' IR [], mention ''Lisinopril'' IR ''tablet'']
      ((), []))))) =
     [''metformin immediate release'', ''metformin ir'', ''metformin'',
      ''warfarin immediate release'', ''warfarin ir'', ''warfarin'', ''warfarin'',
      ''lisinopril tablet immediate release'', ''lisinopril tablet ir'', ''lisinopril tablet'',
      ''lisinopril immediate release'', ''lisinopril ir'']"
    by code_simp
  have e4: "fst (searchMultipleMedications pharmacy_fetch
      [mention ''Metformin'' IR [], mention ''Warfarin'' IR [], mention ''Lisinopril'' IR ''tablet'']
      ()) =
     [\<lparr>setId = Some ''m-ir'', title = Some ''Metformin Hydrochloride Tablets'',
       genericName = None, brandName = None, labeler = Some ''Acme'', activeIngredients = []\<rparr>,
      \<lparr>setId = Some ''l-1'', title = Some ''Lisinopril Tablets'',
       genericName = None, brandName = None, labeler = Some ''Acme'', activeIngredients = []\<rparr>]"
    by code_simp
  show ?thesis
    by (rule conjI [OF e1 conjI [OF e2 conjI [OF e3 conjI [OF e4 first_accepted_candidate_wins]]]])
qed

section \<open>C8: the search log\<close>








section \<open>C9: a failing mention does not abort the batch\<close>




end
